theory Spec2Isabelle
  imports Complex_Main "HOL-Library.Multiset"
begin

section \<open>Front-end data model (types/index.ts)\<close>

text \<open>
  The TypeScript interfaces of the dashboard.  A \<open>number\<close> that carries a fraction is a
  rational here (binary floating-point rounding is not modelled); the string-literal union
  types are datatypes, and \<open>status_literal\<close> / \<open>update_literal\<close> give back the literal that
  travels on the wire.
\<close>

record AgentStepResult =
  step_agent :: string
  step_output :: string
  step_reasoning :: string
  step_confidence :: rat
  step_cost_usd :: rat
  step_latency_ms :: rat
  step_tokens_used :: nat

text \<open>\<open>WebSocketUpdate.status\<close>: \<open>'running' | 'completed' | 'failed'\<close>.\<close>

datatype update_status = U_running | U_completed | U_failed

text \<open>\<open>AgentStatus.status\<close>: \<open>'idle' | 'running' | 'completed' | 'failed'\<close>.\<close>

datatype agent_state = S_idle | S_running | S_completed | S_failed

fun update_literal :: "update_status \<Rightarrow> string" where
  "update_literal U_running = ''running''"
| "update_literal U_completed = ''completed''"
| "update_literal U_failed = ''failed''"

fun status_literal :: "agent_state \<Rightarrow> string" where
  "status_literal S_idle = ''idle''"
| "status_literal S_running = ''running''"
| "status_literal S_completed = ''completed''"
| "status_literal S_failed = ''failed''"

text \<open>The assignment \<open>status: update.status\<close> widens the three-valued type to the four-valued one.\<close>

fun widen_status :: "update_status \<Rightarrow> agent_state" where
  "widen_status U_running = S_running"
| "widen_status U_completed = S_completed"
| "widen_status U_failed = S_failed"

record WebSocketUpdate =
  upd_workflow_id :: string
  upd_agent :: string
  upd_status :: update_status
  upd_result :: "AgentStepResult option"  \<comment> \<open>\<open>data?.result\<close>\<close>
  upd_timestamp :: rat

record AgentStatus =
  as_name :: string
  as_status :: agent_state
  as_result :: "AgentStepResult option"

section \<open>Dashboard state and the WebSocket message handler (DashboardPage.tsx)\<close>

text \<open>
  \<open>String.prototype.toLowerCase\<close> on the ASCII letters; every other character is kept
  (strings are byte strings here, so letters outside ASCII are not folded).
\<close>

definition toLowerChar :: "char \<Rightarrow> char" where
  "toLowerChar c =
     (case map_of (zip ''ABCDEFGHIJKLMNOPQRSTUVWXYZ'' ''abcdefghijklmnopqrstuvwxyz'') c of
        Some l \<Rightarrow> l
      | None \<Rightarrow> c)"

definition toLowerCase :: "string \<Rightarrow> string" where
  "toLowerCase s = map toLowerChar s"

text \<open>The two pieces of React state the handler writes: \<open>agentStatuses\<close> and \<open>updates\<close>.\<close>

record dashboard =
  agentStatuses :: "string \<rightharpoonup> AgentStatus"
  updates :: "WebSocketUpdate list"

text \<open>The initial value of \<open>agentStatuses\<close> (also what \<open>handleSubmit\<close> resets it to).\<close>

definition idle_agent :: "string \<Rightarrow> AgentStatus" where
  "idle_agent n = \<lparr>as_name = n, as_status = S_idle, as_result = None\<rparr>"

definition initialAgentStatuses :: "string \<rightharpoonup> AgentStatus" where
  "initialAgentStatuses =
     [''classifier'' \<mapsto> idle_agent ''Classifier'',
      ''researcher'' \<mapsto> idle_agent ''Researcher'',
      ''validator'' \<mapsto> idle_agent ''Validator'',
      ''writer'' \<mapsto> idle_agent ''Writer'',
      ''qa'' \<mapsto> idle_agent ''QA'']"

definition initialDashboard :: dashboard where
  "initialDashboard = \<lparr>agentStatuses = initialAgentStatuses, updates = []\<rparr>"

text \<open>
  The callback given to \<open>ws.connect\<close>: append the update to the log, then, unless the agent is
  the sentinel \<open>'workflow'\<close>, overwrite the entry keyed by the lower-cased agent name.
\<close>

definition onUpdate :: "WebSocketUpdate \<Rightarrow> dashboard \<Rightarrow> dashboard" where
  "onUpdate u d =
     (let d1 = d\<lparr>updates := updates d @ [u]\<rparr> in
      if upd_agent u \<noteq> ''workflow''
      then d1\<lparr>agentStatuses :=
                (agentStatuses d1)(toLowerCase (upd_agent u) \<mapsto>
                   \<lparr>as_name = upd_agent u,
                    as_status = widen_status (upd_status u),
                    as_result = upd_result u\<rparr>)\<rparr>
      else d1)"

section \<open>Properties of the dashboard handler\<close>

text \<open>
  C9.  An update whose agent is the sentinel \<open>workflow\<close> leaves every entry of the status map
  as it was and is only appended to the execution log.  An update for any other agent
  rewrites the entry under the lower-cased agent name and leaves the entry under every
  other key as it was; the update is appended to the log in both cases.
\<close>

theorem onUpdate_frame:
  "(upd_agent u = ''workflow'' \<longrightarrow> agentStatuses (onUpdate u d) = agentStatuses d)
   \<and> (upd_agent u \<noteq> ''workflow'' \<longrightarrow>
        agentStatuses (onUpdate u d) (toLowerCase (upd_agent u)) =
          Some \<lparr>as_name = upd_agent u, as_status = widen_status (upd_status u),
                as_result = upd_result u\<rparr>
        \<and> (\<forall>k. k \<noteq> toLowerCase (upd_agent u) \<longrightarrow>
               agentStatuses (onUpdate u d) k = agentStatuses d k))
   \<and> updates (onUpdate u d) = updates d @ [u]"
  by (simp add: onUpdate_def Let_def)

theorem onUpdate_frame_witness:
  "agentStatuses (onUpdate \<lparr>upd_workflow_id = ''w1'', upd_agent = ''workflow'',
       upd_status = U_running, upd_result = None, upd_timestamp = 0\<rparr> initialDashboard)
     = initialAgentStatuses
   \<and> agentStatuses (onUpdate \<lparr>upd_workflow_id = ''w1'', upd_agent = ''Writer'',
       upd_status = U_failed, upd_result = None, upd_timestamp = 1\<rparr> initialDashboard) ''writer''
     = Some \<lparr>as_name = ''Writer'', as_status = S_failed, as_result = None\<rparr>
   \<and> agentStatuses (onUpdate \<lparr>upd_workflow_id = ''w1'', upd_agent = ''Writer'',
       upd_status = U_failed, upd_result = None, upd_timestamp = 1\<rparr> initialDashboard) ''qa''
     = Some (idle_agent ''QA'')"
  using onUpdate_frame [of "\<lparr>upd_workflow_id = ''w1'', upd_agent = ''workflow'',
       upd_status = U_running, upd_result = None, upd_timestamp = 0\<rparr>" initialDashboard]
    onUpdate_frame [of "\<lparr>upd_workflow_id = ''w1'', upd_agent = ''Writer'',
       upd_status = U_failed, upd_result = None, upd_timestamp = 1\<rparr>" initialDashboard]
  by (simp add: initialDashboard_def initialAgentStatuses_def toLowerCase_def toLowerChar_def)

section \<open>WebSocket client with reconnection (services/api.ts)\<close>

text \<open>
  The class \<open>WorkflowWebSocket\<close>.  \<open>socket\<close> is the socket whose handlers can still fire
  (\<open>None\<close> before the first \<open>connect\<close> and after \<open>onclose\<close> ran), with its ready state;
  \<open>timer\<close> is the delay in milliseconds of the pending \<open>setTimeout\<close>, if any.
\<close>

datatype socket_state = Connecting | Open

record WorkflowWebSocket =
  socket :: "socket_state option"
  reconnectAttempts :: nat
  maxReconnectAttempts :: nat
  reconnectDelay :: nat
  timer :: "nat option"

definition newWorkflowWebSocket :: WorkflowWebSocket where
  "newWorkflowWebSocket =
     \<lparr>socket = None, reconnectAttempts = 0, maxReconnectAttempts = 5,
      reconnectDelay = 1000, timer = None\<rparr>"

text \<open>
  \<open>connect\<close>: the flag says whether \<open>new WebSocket(url)\<close> returned; when it throws, the
  \<open>catch\<close> only logs and no handler is installed.
\<close>

definition connect :: "bool \<Rightarrow> WorkflowWebSocket \<Rightarrow> WorkflowWebSocket" where
  "connect created c = (if created then c\<lparr>socket := Some Connecting\<rparr> else c)"

definition onopen :: "WorkflowWebSocket \<Rightarrow> WorkflowWebSocket" where
  "onopen c = c\<lparr>socket := Some Open, reconnectAttempts := 0\<rparr>"

definition attemptReconnect :: "WorkflowWebSocket \<Rightarrow> WorkflowWebSocket" where
  "attemptReconnect c =
     (if reconnectAttempts c < maxReconnectAttempts c
      then let c1 = c\<lparr>reconnectAttempts := reconnectAttempts c + 1\<rparr>
           in c1\<lparr>timer := Some (reconnectDelay c1 * reconnectAttempts c1)\<rparr>
      else c)"

definition onclose :: "WorkflowWebSocket \<Rightarrow> WorkflowWebSocket" where
  "onclose c = attemptReconnect (c\<lparr>socket := None\<rparr>)"

text \<open>
  What the browser can do to the client: the connecting socket opens, the live socket
  closes, or the pending timer (of the given delay) fires and runs \<open>connect\<close>.  An event
  that is not enabled in a state has no successor.
\<close>

datatype ws_event = SocketOpens | SocketCloses | TimerFires nat bool

fun ws_step :: "ws_event \<Rightarrow> WorkflowWebSocket \<Rightarrow> WorkflowWebSocket option" where
  "ws_step SocketOpens c = (if socket c = Some Connecting then Some (onopen c) else None)"
| "ws_step SocketCloses c = (if socket c \<noteq> None then Some (onclose c) else None)"
| "ws_step (TimerFires d created) c =
     (if timer c = Some d then Some (connect created (c\<lparr>timer := None\<rparr>)) else None)"

fun ws_run :: "ws_event list \<Rightarrow> WorkflowWebSocket \<Rightarrow> WorkflowWebSocket option" where
  "ws_run [] c = Some c"
| "ws_run (e # es) c = (case ws_step e c of None \<Rightarrow> None | Some c' \<Rightarrow> ws_run es c')"

text \<open>The delays of the reconnection attempts a trace makes, in order.\<close>

fun fired_delays :: "ws_event list \<Rightarrow> nat list" where
  "fired_delays [] = []"
| "fired_delays (TimerFires d created # es) = d # fired_delays es"
| "fired_delays (e # es) = fired_delays es"

text \<open>The constants of the class: five attempts, one second.\<close>

definition ws_ok :: "WorkflowWebSocket \<Rightarrow> bool" where
  "ws_ok c \<longleftrightarrow> maxReconnectAttempts c = 5 \<and> reconnectDelay c = 1000"

text \<open>The number the next attempt to fire will have.\<close>

definition next_no :: "WorkflowWebSocket \<Rightarrow> nat" where
  "next_no c = (if timer c = None then reconnectAttempts c + 1 else reconnectAttempts c)"

definition ws_inv :: "WorkflowWebSocket \<Rightarrow> bool" where
  "ws_inv c \<longleftrightarrow> ws_ok c \<and> reconnectAttempts c \<le> 5 \<and>
     (case timer c of
        None \<Rightarrow> True
      | Some d \<Rightarrow> d = 1000 * reconnectAttempts c \<and> 1 \<le> reconnectAttempts c \<and> socket c = None)"

text \<open>A run of five attempts that all fail, after an established connection drops.\<close>

definition five_failures :: "ws_event list" where
  "five_failures =
     [SocketCloses,
      TimerFires 1000 True, SocketCloses,
      TimerFires 2000 True, SocketCloses,
      TimerFires 3000 True, SocketCloses,
      TimerFires 4000 True, SocketCloses,
      TimerFires 5000 True, SocketCloses]"

definition given_up :: WorkflowWebSocket where
  "given_up = \<lparr>socket = None, reconnectAttempts = 5, maxReconnectAttempts = 5,
      reconnectDelay = 1000, timer = None\<rparr>"

subsection \<open>The reconnection policy\<close>

lemma ws_step_inv:
  "ws_inv c \<Longrightarrow> e \<noteq> SocketOpens \<Longrightarrow> ws_step e c = Some c' \<Longrightarrow>
     ws_inv c' \<and> fired_delays [e] = (if timer c = None then [] else [1000 * reconnectAttempts c])
     \<and> next_no c' = (case e of TimerFires _ _ \<Rightarrow> next_no c + 1 | _ \<Rightarrow> next_no c)"
  by (cases e)
    (auto simp: ws_inv_def ws_ok_def onclose_def attemptReconnect_def connect_def next_no_def
      Let_def split: if_splits option.splits)

lemma ws_run_inv:
  "ws_inv c \<Longrightarrow> SocketOpens \<notin> set es \<Longrightarrow> ws_run es c = Some c' \<Longrightarrow>
     ws_inv c' \<and> next_no c \<le> next_no c'
     \<and> fired_delays es = map (\<lambda>n. n * 1000) [next_no c ..< next_no c']"
proof (induction es arbitrary: c)
  case Nil
  then show ?case by simp
next
  case (Cons e es)
  from Cons.prems obtain c1 where s1: "ws_step e c = Some c1" and r: "ws_run es c1 = Some c'"
    by (auto split: option.splits)
  from Cons.prems have ne: "e \<noteq> SocketOpens" and nes: "SocketOpens \<notin> set es" by auto
  from ws_step_inv [OF Cons.prems(1) ne s1]
  have i1: "ws_inv c1"
    and f1: "fired_delays [e] = (if timer c = None then [] else [1000 * reconnectAttempts c])"
    and n1: "next_no c1 = (case e of TimerFires _ _ \<Rightarrow> next_no c + 1 | _ \<Rightarrow> next_no c)"
    by simp_all
  from Cons.IH [OF i1 nes r]
  have i2: "ws_inv c'" and le: "next_no c1 \<le> next_no c'"
    and f2: "fired_delays es = map (\<lambda>n. n * 1000) [next_no c1 ..< next_no c']"
    by simp_all
  show ?case
  proof (cases e)
    case SocketOpens
    with ne show ?thesis by simp
  next
    case SocketCloses
    with n1 le f2 i2 show ?thesis by simp
  next
    case (TimerFires d created)
    with s1 have t: "timer c = Some d" by (simp split: if_splits)
    with Cons.prems(1) have d: "d = 1000 * reconnectAttempts c" by (simp add: ws_inv_def)
    from t have nn: "next_no c = reconnectAttempts c" by (simp add: next_no_def)
    from TimerFires n1 have n1': "next_no c1 = Suc (next_no c)" by simp
    with le have lt: "next_no c < next_no c'" by simp
    have "fired_delays (e # es) = d # map (\<lambda>n. n * 1000) [Suc (next_no c) ..< next_no c']"
      using TimerFires f2 n1' by simp
    also have "\<dots> = map (\<lambda>n. n * 1000) [next_no c ..< next_no c']"
      using lt d nn by (simp add: upt_conv_Cons)
    finally show ?thesis using i2 lt by simp
  qed
qed

text \<open>
  C10.  Take a client with the class's constants whose attempt counter is 0 and that has no
  timer pending (a connection was just established, or \<open>connect\<close> was just called), and any
  sequence of events in which no socket opens.  The reconnection attempts of that sequence
  are at most five, and the n-th of them fires after a delay of n * 1000 milliseconds.  Once
  five attempts were made and the last socket has closed, no event is enabled any more: the
  client never reconnects again.  A socket that opens sets the counter back to 0.
\<close>

theorem reconnect_policy:
  assumes "ws_ok c0" and "reconnectAttempts c0 = 0" and "timer c0 = None"
      and "SocketOpens \<notin> set es" and "ws_run es c0 = Some c"
  shows "fired_delays es = map (\<lambda>n. n * 1000) [1 ..< Suc (length (fired_delays es))]
       \<and> length (fired_delays es) \<le> 5
       \<and> (length (fired_delays es) = 5 \<and> socket c = None \<longrightarrow> (\<forall>e. ws_step e c = None))
       \<and> (\<forall>c'. ws_step SocketOpens c = Some c' \<longrightarrow> reconnectAttempts c' = 0)"
proof -
  from assms have i0: "ws_inv c0" and n0: "next_no c0 = 1"
    by (simp_all add: ws_inv_def next_no_def)
  from ws_run_inv [OF i0 assms(4) assms(5)] n0
  have i: "ws_inv c" and le: "1 \<le> next_no c"
    and f: "fired_delays es = map (\<lambda>n. n * 1000) [1 ..< next_no c]"
    by simp_all
  from f have len: "length (fired_delays es) = next_no c - 1" by simp
  with le have a: "fired_delays es = map (\<lambda>n. n * 1000) [1 ..< Suc (length (fired_delays es))]"
    using f by simp
  from i have "next_no c \<le> 6" by (auto simp: ws_inv_def next_no_def)
  with len have b: "length (fired_delays es) \<le> 5" by simp
  have c: "length (fired_delays es) = 5 \<and> socket c = None \<longrightarrow> (\<forall>e. ws_step e c = None)"
  proof (intro impI allI)
    fix e assume h: "length (fired_delays es) = 5 \<and> socket c = None"
    with len have "next_no c = 6" by simp
    with i have "timer c = None" by (auto simp: ws_inv_def next_no_def split: if_splits)
    with h show "ws_step e c = None" by (cases e) simp_all
  qed
  have d: "\<forall>c'. ws_step SocketOpens c = Some c' \<longrightarrow> reconnectAttempts c' = 0"
    by (auto simp: onopen_def split: if_splits)
  from a b c d show ?thesis by blast
qed

theorem reconnect_policy_witness:
  "ws_run five_failures (onopen (connect True newWorkflowWebSocket)) = Some given_up
   \<and> fired_delays five_failures = [1000, 2000, 3000, 4000, 5000]
   \<and> (\<forall>e. ws_step e given_up = None)"
proof -
  have r: "ws_run five_failures (onopen (connect True newWorkflowWebSocket)) = Some given_up"
    by (simp add: five_failures_def given_up_def onopen_def connect_def newWorkflowWebSocket_def
      onclose_def attemptReconnect_def Let_def)
  have f: "fired_delays five_failures = [1000, 2000, 3000, 4000, 5000]"
    by (simp add: five_failures_def)
  have "(\<forall>e. ws_step e given_up = None)"
    using reconnect_policy [of "onopen (connect True newWorkflowWebSocket)" five_failures given_up] r f
    by (simp add: ws_ok_def onopen_def connect_def newWorkflowWebSocket_def five_failures_def given_up_def)
  with r f show ?thesis by simp
qed

section \<open>HTTP client (services/api.ts)\<close>

text \<open>
  The requests the client functions build.  The transport (axios and the server behind it)
  is a parameter \<open>send\<close>: it answers a request with the response body, or with an error
  (axios rejects; the functions do not catch).
\<close>

datatype http_method = GET | POST

datatype param_value = PNum int | PStr string

record http_request =
  req_method :: http_method
  req_path :: string
  req_params :: "(string \<times> param_value) list"
  req_body :: "(string \<times> string) list"

text \<open>The optional filters of \<open>listWorkflows\<close>; an undefined field is not sent.\<close>

record list_params =
  lp_limit :: "int option"
  lp_offset :: "int option"
  lp_category :: "string option"
  lp_status :: "string option"

definition opt_param :: "string \<Rightarrow> param_value option \<Rightarrow> (string \<times> param_value) list" where
  "opt_param k v = (case v of None \<Rightarrow> [] | Some x \<Rightarrow> [(k, x)])"

definition query_of :: "list_params option \<Rightarrow> (string \<times> param_value) list" where
  "query_of ps =
     (case ps of
        None \<Rightarrow> []
      | Some p \<Rightarrow>
          opt_param ''limit'' (map_option PNum (lp_limit p))
          @ opt_param ''offset'' (map_option PNum (lp_offset p))
          @ opt_param ''category'' (map_option PStr (lp_category p))
          @ opt_param ''status'' (map_option PStr (lp_status p)))"

text \<open>
  \<open>executeWorkflow\<close> takes the workflow type explicitly here; the source defaults it to
  \<open>'customer_support'\<close> when the caller leaves it out.
\<close>

definition executeWorkflow :: "(http_request \<Rightarrow> 'e + 'r) \<Rightarrow> string \<Rightarrow> string \<Rightarrow> 'e + 'r" where
  "executeWorkflow send userInput workflowType =
     send \<lparr>req_method = POST, req_path = ''/workflow/execute'', req_params = [],
           req_body = [(''user_input'', userInput), (''workflow_type'', workflowType)]\<rparr>"

definition getWorkflow :: "(http_request \<Rightarrow> 'e + 'r) \<Rightarrow> string \<Rightarrow> 'e + 'r" where
  "getWorkflow send workflowId =
     send \<lparr>req_method = GET, req_path = ''/workflows/'' @ workflowId, req_params = [],
           req_body = []\<rparr>"

definition listWorkflows :: "(http_request \<Rightarrow> 'e + 'r) \<Rightarrow> list_params option \<Rightarrow> 'e + 'r" where
  "listWorkflows send params =
     send \<lparr>req_method = GET, req_path = ''/workflows'', req_params = query_of params,
           req_body = []\<rparr>"

text \<open>A listing request with every filter the client has.\<close>

definition all_filters :: list_params where
  "all_filters = \<lparr>lp_limit = Some 10, lp_offset = Some 20, lp_category = Some ''refund'',
      lp_status = Some ''completed''\<rparr>"

text \<open>
  C7, as the claim states it, fails: the listing has no filter by workflow type.  With every
  filter set, the query carries the keys limit, offset, category and status and no
  \<open>workflow_type\<close>, the key under which \<open>executeWorkflow\<close> sends the workflow type.
\<close>

theorem list_filter_counterexample:
  "map fst (query_of (Some all_filters)) = [''limit'', ''offset'', ''category'', ''status'']
   \<and> ''workflow_type'' \<notin> set (map fst (query_of (Some all_filters)))
   \<and> map fst (req_body (projr (executeWorkflow Inr ''hello'' ''customer_support'')))
       = [''user_input'', ''workflow_type'']"
  by (simp add: query_of_def all_filters_def opt_param_def executeWorkflow_def)

text \<open>
  C7, amended.  The query interface fetches one workflow by its id (a GET of
  \<open>/workflows/<id>\<close>) and lists workflows (a GET of \<open>/workflows\<close>) filtered by category, by
  status, and by offset/limit pagination: each filter that is set is sent under its own
  key with its value, and no other key is ever sent.
\<close>

theorem query_interface:
  "getWorkflow send wid =
     send \<lparr>req_method = GET, req_path = ''/workflows/'' @ wid, req_params = [], req_body = []\<rparr>
   \<and> listWorkflows send ps =
     send \<lparr>req_method = GET, req_path = ''/workflows'', req_params = query_of ps, req_body = []\<rparr>
   \<and> map_of (query_of (Some p)) ''limit'' = map_option PNum (lp_limit p)
   \<and> map_of (query_of (Some p)) ''offset'' = map_option PNum (lp_offset p)
   \<and> map_of (query_of (Some p)) ''category'' = map_option PStr (lp_category p)
   \<and> map_of (query_of (Some p)) ''status'' = map_option PStr (lp_status p)
   \<and> set (map fst (query_of ps)) \<subseteq> {''limit'', ''offset'', ''category'', ''status''}"
  by (cases ps)
    (auto simp: getWorkflow_def listWorkflows_def query_of_def opt_param_def
      split: option.splits)

section \<open>Workflow canvas (components/WorkflowCanvas.tsx)\<close>

text \<open>
  The nodes and edges the canvas hands to React Flow.  A node shows the status and the
  result of its agent (\<open>agentStatuses.k?.status || 'idle'\<close>, \<open>agentStatuses.k?.result\<close>);
  an edge is animated when its source agent is completed.
\<close>

record flow_node =
  node_id :: string
  node_x :: int
  node_y :: int
  node_label :: string
  node_status :: agent_state
  node_result :: "AgentStepResult option"

record flow_edge =
  edge_id :: string
  edge_source :: string
  edge_target :: string
  edge_animated :: bool

text \<open>The status a canvas node shows for a key: \<open>agentStatuses.k?.status || 'idle'\<close>.\<close>

definition shownStatus :: "(string \<rightharpoonup> AgentStatus) \<Rightarrow> string \<Rightarrow> agent_state" where
  "shownStatus m k = (case m k of None \<Rightarrow> S_idle | Some a \<Rightarrow> as_status a)"

definition shownResult :: "(string \<rightharpoonup> AgentStatus) \<Rightarrow> string \<Rightarrow> AgentStepResult option" where
  "shownResult m k = (case m k of None \<Rightarrow> None | Some a \<Rightarrow> as_result a)"

definition isCompleted :: "(string \<rightharpoonup> AgentStatus) \<Rightarrow> string \<Rightarrow> bool" where
  "isCompleted m k = (case m k of None \<Rightarrow> False | Some a \<Rightarrow> as_status a = S_completed)"

definition agent_node ::
  "(string \<rightharpoonup> AgentStatus) \<Rightarrow> string \<Rightarrow> int \<Rightarrow> int \<Rightarrow> string \<Rightarrow> flow_node" where
  "agent_node m k x y l =
     \<lparr>node_id = k, node_x = x, node_y = y, node_label = l, node_status = shownStatus m k,
      node_result = shownResult m k\<rparr>"

definition canvas_nodes :: "(string \<rightharpoonup> AgentStatus) \<Rightarrow> flow_node list" where
  "canvas_nodes m =
     [agent_node m ''classifier'' 400 50 ''Classifier'',
      agent_node m ''researcher'' 200 220 ''Research'',
      agent_node m ''validator'' 600 220 ''Validator'',
      agent_node m ''writer'' 400 390 ''Writer'',
      agent_node m ''qa'' 400 560 ''QA'']"

definition agent_edge ::
  "(string \<rightharpoonup> AgentStatus) \<Rightarrow> string \<Rightarrow> string \<Rightarrow> string \<Rightarrow> flow_edge" where
  "agent_edge m e s t =
     \<lparr>edge_id = e, edge_source = s, edge_target = t, edge_animated = isCompleted m s\<rparr>"

definition canvas_edges :: "(string \<rightharpoonup> AgentStatus) \<Rightarrow> flow_edge list" where
  "canvas_edges m =
     [agent_edge m ''e1'' ''classifier'' ''researcher'',
      agent_edge m ''e2'' ''classifier'' ''validator'',
      agent_edge m ''e3'' ''researcher'' ''writer'',
      agent_edge m ''e4'' ''validator'' ''writer'',
      agent_edge m ''e5'' ''writer'' ''qa'']"

text \<open>The stages with no outgoing edge.\<close>

definition canvas_sinks :: "(string \<rightharpoonup> AgentStatus) \<Rightarrow> string list" where
  "canvas_sinks m =
     filter (\<lambda>k. k \<notin> set (map edge_source (canvas_edges m))) (map node_id (canvas_nodes m))"

section \<open>Stage graph\<close>


text \<open>
  Modelled from the spec: the orchestration engine (stage graph, scheduler, metrics
  aggregator, event publisher) is the back end of the repository, and its code is missing
  from the sources; the definitions of this and the following sections follow sections 3
  to 5 of the specification.

  A stage definition is a unique name with the names of the stages it depends on.  The
  execution capability of a stage is opaque; it is passed to the scheduler as a function on
  stage names (\<open>executor\<close> below).
\<close>

record stage_def =
  stage_name :: string
  stage_deps :: "string list"

text \<open>
  Modelled from the spec: \<open>GraphError\<close>, raised at construction for a duplicated name, a
  reference to an unknown stage name, or a cycle.
\<close>

datatype graph_error = DuplicateName string | UnknownStage string | DependencyCycle

text \<open>
  Modelled from the spec: a validated graph, with the one stage it designates as the
  terminal (output) stage.
\<close>

record stage_graph =
  graph_stages :: "stage_def list"
  graph_terminal :: string

definition stage_names :: "stage_def list \<Rightarrow> string list" where
  "stage_names defs = map stage_name defs"

text \<open>
  Modelled from the spec: the three checks of graph validation.  A name is duplicated when
  it occurs again later in the list.
\<close>

fun first_duplicate :: "string list \<Rightarrow> string option" where
  "first_duplicate [] = None"
| "first_duplicate (x # xs) = (if x \<in> set xs then Some x else first_duplicate xs)"

text \<open>
  Modelled from the spec: a reference to an unknown stage name is a dependency, or the
  designated terminal stage, that no stage of the list is called.
\<close>

definition first_unknown :: "stage_def list \<Rightarrow> string \<Rightarrow> string option" where
  "first_unknown defs terminal =
     (case filter (\<lambda>d. d \<notin> set (stage_names defs)) (concat (map stage_deps defs) @ [terminal]) of
        [] \<Rightarrow> None
      | d # _ \<Rightarrow> Some d)"

text \<open>
  Modelled from the spec: the cycle check places, round by round, every stage whose
  dependencies are all placed; a round that can place nothing while stages remain has
  found a cycle.  Each round places at least one stage, so the rounds end.
\<close>

definition resolved :: "string list \<Rightarrow> stage_def \<Rightarrow> bool" where
  "resolved placed sd \<longleftrightarrow> list_all (\<lambda>d. d \<in> set placed) (stage_deps sd)"

function topo_order :: "stage_def list \<Rightarrow> string list \<Rightarrow> string list option" where
  "topo_order pending placed =
     (if pending = [] then Some placed
      else if filter (resolved placed) pending = [] then None
      else topo_order (filter (\<lambda>sd. \<not> resolved placed sd) pending)
             (placed @ stage_names (filter (resolved placed) pending)))"
  by pat_completeness auto
termination
proof (relation "measure (\<lambda>(pending, placed). length pending)")
  show "wf (measure (\<lambda>(pending, placed). length pending))" by simp
next
  fix pending :: "stage_def list" and placed :: "string list"
  assume "filter (resolved placed) pending \<noteq> []"
  then obtain sd where "sd \<in> set pending" "resolved placed sd"
    by (auto simp: filter_empty_conv)
  then have "length (filter (\<lambda>sd. \<not> resolved placed sd) pending) < length pending"
    by (intro length_filter_less [of sd]) auto
  then show "((filter (\<lambda>sd. \<not> resolved placed sd) pending,
      placed @ stage_names (filter (resolved placed) pending)), (pending, placed))
    \<in> measure (\<lambda>(pending, placed). length pending)" by simp
qed

declare topo_order.simps [simp del]

text \<open>
  Modelled from the spec: validation reports the first failing check.
\<close>

definition validate :: "stage_def list \<Rightarrow> string \<Rightarrow> graph_error option" where
  "validate defs terminal =
     (case first_duplicate (stage_names defs) of
        Some n \<Rightarrow> Some (DuplicateName n)
      | None \<Rightarrow>
          (case first_unknown defs terminal of
             Some d \<Rightarrow> Some (UnknownStage d)
           | None \<Rightarrow>
               (case topo_order defs [] of
                  None \<Rightarrow> Some DependencyCycle
                | Some _ \<Rightarrow> None)))"

text \<open>
  Modelled from the spec: graph construction from the declarative stage list.  The
  registry holds the stages registered so far; construction validates the whole list
  first and registers its stages only when validation passed, so the result is the
  outcome together with the registry afterwards.
\<close>

definition build_graph ::
  "stage_def list \<Rightarrow> string \<Rightarrow> stage_def list \<Rightarrow> (graph_error + stage_graph) \<times> stage_def list" where
  "build_graph defs terminal registry =
     (case validate defs terminal of
        Some e \<Rightarrow> (Inl e, registry)
      | None \<Rightarrow> (Inr \<lparr>graph_stages = defs, graph_terminal = terminal\<rparr>, registry @ defs))"

text \<open>
  A cycle and an unknown dependency, as properties of a stage list: \<open>(d, n)\<close> is an edge when
  the stage named \<open>n\<close> declares the dependency \<open>d\<close>; a cycle is a stage that reaches
  itself along edges.
\<close>

definition depends_rel :: "stage_def list \<Rightarrow> (string \<times> string) set" where
  "depends_rel defs = {(d, n). \<exists>sd \<in> set defs. stage_name sd = n \<and> d \<in> set (stage_deps sd)}"

definition has_cycle :: "stage_def list \<Rightarrow> bool" where
  "has_cycle defs \<longleftrightarrow> (\<exists>n. (n, n) \<in> (depends_rel defs)\<^sup>+)"

definition has_unknown_dependency :: "stage_def list \<Rightarrow> bool" where
  "has_unknown_dependency defs \<longleftrightarrow>
     (\<exists>sd \<in> set defs. \<exists>d \<in> set (stage_deps sd). d \<notin> set (stage_names defs))"

text \<open>
  Scenario A of the specification: the classifier first, then the researcher and the
  validator, then the writer, then QA.
\<close>

definition scenario_A :: "stage_def list" where
  "scenario_A =
     [\<lparr>stage_name = ''classifier'', stage_deps = []\<rparr>,
      \<lparr>stage_name = ''researcher'', stage_deps = [''classifier'']\<rparr>,
      \<lparr>stage_name = ''validator'', stage_deps = [''classifier'']\<rparr>,
      \<lparr>stage_name = ''writer'', stage_deps = [''researcher'', ''validator'']\<rparr>,
      \<lparr>stage_name = ''qa'', stage_deps = [''writer'']\<rparr>]"


text \<open>
  The invariant of the cycle check: the placed stages carry a rank below \<open>k\<close> that is
  strictly increasing along every edge into a placed stage.
\<close>

definition topo_inv ::
  "stage_def list \<Rightarrow> stage_def list \<Rightarrow> string list \<Rightarrow> nat \<Rightarrow> (string \<Rightarrow> nat) \<Rightarrow> bool" where
  "topo_inv defs pending placed k rank \<longleftrightarrow>
     set pending \<subseteq> set defs
     \<and> set (stage_names defs) \<subseteq> set (stage_names pending) \<union> set placed
     \<and> (\<forall>n \<in> set placed. rank n < k)
     \<and> (\<forall>sd \<in> set defs. stage_name sd \<in> set placed \<longrightarrow>
           (\<forall>d \<in> set (stage_deps sd). d \<in> set placed \<and> rank d < rank (stage_name sd)))"

subsection \<open>Validation rejects cycles and unknown names\<close>

lemma first_duplicate_None: "first_duplicate xs = None \<longleftrightarrow> distinct xs"
  by (induction xs) auto

lemma topo_inv_step:
  assumes inv: "topo_inv defs pending placed k rank"
      and dist: "distinct (stage_names defs)"
  shows "topo_inv defs (filter (\<lambda>sd. \<not> resolved placed sd) pending)
           (placed @ stage_names (filter (resolved placed) pending)) (Suc k)
           (\<lambda>x. if x \<in> set placed then rank x else k)"
proof -
  let ?ready = "filter (resolved placed) pending"
  let ?rank = "\<lambda>x. if x \<in> set placed then rank x else k"
  from inv have sub: "set pending \<subseteq> set defs"
    and cover: "set (stage_names defs) \<subseteq> set (stage_names pending) \<union> set placed"
    and bound: "\<forall>n \<in> set placed. rank n < k"
    and edges: "\<forall>sd \<in> set defs. stage_name sd \<in> set placed \<longrightarrow>
           (\<forall>d \<in> set (stage_deps sd). d \<in> set placed \<and> rank d < rank (stage_name sd))"
    by (simp_all add: topo_inv_def)
  from dist have inj: "inj_on stage_name (set defs)"
    by (simp add: stage_names_def distinct_map)
  have a: "set (filter (\<lambda>sd. \<not> resolved placed sd) pending) \<subseteq> set defs"
    using sub by auto
  have b: "set (stage_names defs)
      \<subseteq> set (stage_names (filter (\<lambda>sd. \<not> resolved placed sd) pending))
        \<union> set (placed @ stage_names ?ready)"
    using cover by (auto simp: stage_names_def)
  have c: "\<forall>n \<in> set (placed @ stage_names ?ready). ?rank n < Suc k"
    using bound by (auto simp: less_Suc_eq)
  have d: "\<forall>sd \<in> set defs. stage_name sd \<in> set (placed @ stage_names ?ready) \<longrightarrow>
      (\<forall>d \<in> set (stage_deps sd).
          d \<in> set (placed @ stage_names ?ready) \<and> ?rank d < ?rank (stage_name sd))"
  proof (intro ballI impI)
    fix sd d
    assume sd: "sd \<in> set defs" and nm: "stage_name sd \<in> set (placed @ stage_names ?ready)"
      and dd: "d \<in> set (stage_deps sd)"
    show "d \<in> set (placed @ stage_names ?ready) \<and> ?rank d < ?rank (stage_name sd)"
    proof (cases "stage_name sd \<in> set placed")
      case True
      with edges sd dd show ?thesis by auto
    next
      case False
      with nm obtain sd' where r: "sd' \<in> set pending" "resolved placed sd'"
        and e: "stage_name sd' = stage_name sd"
        by (auto simp: stage_names_def)
      from r sub have "sd' \<in> set defs" by auto
      with inj sd e have "sd' = sd" by (auto dest: inj_onD)
      with r dd have "d \<in> set placed" by (auto simp: resolved_def list_all_iff)
      with bound False show ?thesis by auto
    qed
  qed
  from a b c d show ?thesis unfolding topo_inv_def by blast
qed

lemma topo_order_ranked:
  "topo_order pending placed = Some order \<Longrightarrow> distinct (stage_names defs) \<Longrightarrow>
     topo_inv defs pending placed k rank \<Longrightarrow>
     \<exists>rank'. \<forall>sd \<in> set defs. \<forall>d \<in> set (stage_deps sd). rank' d < (rank' (stage_name sd) :: nat)"
proof (induction pending placed arbitrary: k rank rule: topo_order.induct)
  case (1 pending placed)
  show ?case
  proof (cases "pending = []")
    case True
    with "1.prems"(3) have "\<forall>sd \<in> set defs. stage_name sd \<in> set placed"
      by (auto simp: topo_inv_def stage_names_def)
    with "1.prems"(3) have "\<forall>sd \<in> set defs. \<forall>d \<in> set (stage_deps sd). rank d < rank (stage_name sd)"
      by (auto simp: topo_inv_def)
    then show ?thesis by blast
  next
    case False
    show ?thesis
    proof (cases "filter (resolved placed) pending = []")
      case True
      with False "1.prems"(1) show ?thesis by (simp add: topo_order.simps)
    next
      case ne: False
      from False ne "1.prems"(1)
      have r: "topo_order (filter (\<lambda>sd. \<not> resolved placed sd) pending)
          (placed @ stage_names (filter (resolved placed) pending)) = Some order"
        by (simp add: topo_order.simps)
      from "1.IH" [OF False ne r "1.prems"(2) topo_inv_step [OF "1.prems"(3) "1.prems"(2)]]
      show ?thesis .
    qed
  qed
qed

lemma ranked_acyclic:
  assumes "\<forall>sd \<in> set defs. \<forall>d \<in> set (stage_deps sd). rank d < (rank (stage_name sd) :: nat)"
  shows "\<not> has_cycle defs"
proof -
  have "(a, b) \<in> (depends_rel defs)\<^sup>+ \<Longrightarrow> rank a < rank b" for a b
  proof (induction rule: trancl_induct)
    case (base y)
    with assms show ?case by (auto simp: depends_rel_def)
  next
    case (step y z)
    from step.hyps(2) assms have "rank y < rank z" by (auto simp: depends_rel_def)
    with step.IH show ?case by simp
  qed
  then show ?thesis by (auto simp: has_cycle_def)
qed

lemma topo_order_acyclic:
  assumes "topo_order defs [] = Some order" and "distinct (stage_names defs)"
  shows "\<not> has_cycle defs"
proof -
  have "topo_inv defs defs [] 0 (\<lambda>_. 0)" by (simp add: topo_inv_def)
  from topo_order_ranked [OF assms this] ranked_acyclic show ?thesis by blast
qed

lemma unknown_dependency_found:
  "has_unknown_dependency defs \<Longrightarrow> first_unknown defs terminal \<noteq> None"
proof -
  assume "has_unknown_dependency defs"
  then obtain sd d where "sd \<in> set defs" "d \<in> set (stage_deps sd)" "d \<notin> set (stage_names defs)"
    by (auto simp: has_unknown_dependency_def)
  then have "d \<in> set (filter (\<lambda>d. d \<notin> set (stage_names defs))
      (concat (map stage_deps defs) @ [terminal]))" by auto
  then have "filter (\<lambda>d. d \<notin> set (stage_names defs))
      (concat (map stage_deps defs) @ [terminal]) \<noteq> []" by (metis empty_iff list.set(1))
  then show ?thesis by (auto simp: first_unknown_def split: list.splits)
qed

lemma validate_rejects:
  assumes "has_cycle defs \<or> has_unknown_dependency defs"
  shows "validate defs terminal \<noteq> None"
proof (cases "first_duplicate (stage_names defs)")
  case (Some n)
  then show ?thesis by (simp add: validate_def)
next
  case None
  then have dist: "distinct (stage_names defs)" by (simp add: first_duplicate_None)
  show ?thesis
  proof (cases "first_unknown defs terminal")
    case (Some d)
    with None show ?thesis by (simp add: validate_def)
  next
    case nu: None
    with unknown_dependency_found have "\<not> has_unknown_dependency defs" by blast
    with assms have cyc: "has_cycle defs" by simp
    with topo_order_acyclic dist have "topo_order defs [] = None"
      by (cases "topo_order defs []") auto
    with None nu show ?thesis by (simp add: validate_def)
  qed
qed

text \<open>
  C4.  Whenever the declarative stage list contains a dependency cycle or a dependency on
  a stage name that the list does not declare, graph construction fails with a graph
  error and leaves the registry exactly as it was: no stage of the list is registered.
\<close>

theorem build_graph_rejects:
  assumes "has_cycle defs \<or> has_unknown_dependency defs"
  shows "\<exists>e. build_graph defs terminal registry = (Inl e, registry)"
  using validate_rejects [OF assms, of terminal]
  by (auto simp: build_graph_def split: option.splits)

text \<open>Two stages that depend on each other.\<close>

definition cyclic_defs :: "stage_def list" where
  "cyclic_defs =
     [\<lparr>stage_name = ''a'', stage_deps = [''b'']\<rparr>,
      \<lparr>stage_name = ''b'', stage_deps = [''a'']\<rparr>]"

theorem build_graph_rejects_witness:
  "has_cycle cyclic_defs \<and> build_graph cyclic_defs ''b'' scenario_A = (Inl DependencyCycle, scenario_A)"
proof -
  have "(''a'', ''b'') \<in> depends_rel cyclic_defs" "(''b'', ''a'') \<in> depends_rel cyclic_defs"
    by (simp_all add: depends_rel_def cyclic_defs_def)
  then have "(''a'', ''a'') \<in> (depends_rel cyclic_defs)\<^sup>+" by (meson trancl.simps)
  then have c: "has_cycle cyclic_defs" by (auto simp: has_cycle_def)
  from build_graph_rejects [of cyclic_defs "''b''" scenario_A] c
  obtain e where e: "build_graph cyclic_defs ''b'' scenario_A = (Inl e, scenario_A)" by blast
  have "validate cyclic_defs ''b'' = Some DependencyCycle"
    by (simp add: validate_def cyclic_defs_def stage_names_def first_unknown_def
        topo_order.simps resolved_def)
  with e have "e = DependencyCycle" by (simp add: build_graph_def)
  with e c show ?thesis by simp
qed

section \<open>Workflow instance and orchestrator\<close>


text \<open>
  Modelled from the spec: the status of a stage and of an instance (section 3 and 4.3), a
  stage result, the two stage-level errors, and an event of the per-workflow event log
  (the stage name or the sentinel \<open>workflow\<close>, the transition, an optional result).  Costs,
  latencies and confidences are rationals.
\<close>

datatype stage_status = Pending | Running | Completed | Failed | Skipped

datatype instance_status = Created | InstanceRunning | InstanceCompleted | InstanceFailed

record stage_result =
  result_output :: string
  result_confidence :: rat
  result_cost :: rat
  result_latency :: rat
  result_tokens :: nat

datatype stage_error = StageExecutionError | StageTimeoutError

datatype event_kind = EvStarted | EvCompleted | EvFailed | EvSkipped

record event =
  event_workflow :: string
  event_stage :: string
  event_kind :: event_kind
  event_payload :: "stage_result option"

text \<open>
  Modelled from the spec: the workflow instance.  The context is append-only and is
  written once per completed stage, in completion order; the running totals are the
  summed cost, latency and tokens, the running confidence average and the count of stages
  folded in; the event log is the append-only log of section 9.
\<close>

record workflow_instance =
  inst_id :: string
  inst_request :: string
  inst_status :: instance_status
  inst_stage_status :: "string \<Rightarrow> stage_status"
  inst_context :: "(string \<times> stage_result) list"
  inst_final_output :: "string option"
  inst_total_cost :: rat
  inst_total_latency :: rat
  inst_total_tokens :: nat
  inst_avg_confidence :: rat
  inst_stage_count :: nat
  inst_events :: "event list"

text \<open>
  Modelled from the spec: emitting an event appends it to the instance's log; it is always
  applied after the state change it reports.
\<close>

definition emit :: "string \<Rightarrow> event_kind \<Rightarrow> stage_result option \<Rightarrow> workflow_instance \<Rightarrow> workflow_instance" where
  "emit s k p i =
     i\<lparr>inst_events := inst_events i @
         [\<lparr>event_workflow = inst_id i, event_stage = s, event_kind = k, event_payload = p\<rparr>]\<rparr>"

text \<open>
  Modelled from the spec: an instance is created at submission with every stage Pending;
  step 1 of the algorithm marks it Running and emits the workflow-started event.
\<close>

definition create_instance :: "string \<Rightarrow> string \<Rightarrow> workflow_instance" where
  "create_instance wid request =
     \<lparr>inst_id = wid, inst_request = request, inst_status = Created,
      inst_stage_status = (\<lambda>_. Pending), inst_context = [], inst_final_output = None,
      inst_total_cost = 0, inst_total_latency = 0, inst_total_tokens = 0,
      inst_avg_confidence = 0, inst_stage_count = 0, inst_events = []\<rparr>"

definition start_instance :: "workflow_instance \<Rightarrow> workflow_instance" where
  "start_instance i = emit ''workflow'' EvStarted None (i\<lparr>inst_status := InstanceRunning\<rparr>)"

definition set_stage :: "string \<Rightarrow> stage_status \<Rightarrow> workflow_instance \<Rightarrow> workflow_instance" where
  "set_stage s st i = i\<lparr>inst_stage_status := (inst_stage_status i)(s := st)\<rparr>"

text \<open>
  Modelled from the spec: the ready set is the stages that are Pending and whose
  dependencies are all Completed (step 2).
\<close>

definition is_ready :: "workflow_instance \<Rightarrow> stage_def \<Rightarrow> bool" where
  "is_ready i sd \<longleftrightarrow>
     inst_stage_status i (stage_name sd) = Pending
     \<and> list_all (\<lambda>d. inst_stage_status i d = Completed) (stage_deps sd)"

definition ready_set :: "stage_graph \<Rightarrow> workflow_instance \<Rightarrow> string list" where
  "ready_set g i = stage_names (filter (is_ready i) (graph_stages g))"

text \<open>
  Modelled from the spec: launching marks the stage Running and emits its stage-started
  event (step 3).
\<close>

definition launch :: "workflow_instance \<Rightarrow> string \<Rightarrow> workflow_instance" where
  "launch i s = emit s EvStarted None (set_stage s Running i)"

definition running_stages :: "stage_graph \<Rightarrow> workflow_instance \<Rightarrow> string list" where
  "running_stages g i =
     filter (\<lambda>n. inst_stage_status i n = Running) (stage_names (graph_stages g))"

text \<open>
  Modelled from the spec: a stage is terminal when it is Completed, Failed or Skipped.
\<close>

definition unfinished :: "stage_status \<Rightarrow> bool" where
  "unfinished st \<longleftrightarrow> st = Pending \<or> st = Running"

definition all_terminal :: "stage_graph \<Rightarrow> workflow_instance \<Rightarrow> bool" where
  "all_terminal g i \<longleftrightarrow>
     filter (\<lambda>n. unfinished (inst_stage_status i n)) (stage_names (graph_stages g)) = []"

text \<open>
  Modelled from the spec: one scheduling round (steps 2 and 3).  A terminal instance
  schedules nothing.  An empty ready set with no stage Running and not all stages
  terminal is the deadlock condition and fails the instance; otherwise every stage of the
  ready set is launched.
\<close>

definition schedule :: "stage_graph \<Rightarrow> workflow_instance \<Rightarrow> workflow_instance" where
  "schedule g i =
     (if inst_status i \<noteq> InstanceRunning then i
      else if ready_set g i = [] \<and> running_stages g i = [] \<and> \<not> all_terminal g i
      then emit ''workflow'' EvFailed None (i\<lparr>inst_status := InstanceFailed\<rparr>)
      else foldl launch i (ready_set g i))"

text \<open>
  Modelled from the spec: the metrics aggregator folds one stage result into the totals:
  sums of cost, latency and tokens, and the running mean of confidence.
\<close>

definition fold_metrics :: "stage_result \<Rightarrow> workflow_instance \<Rightarrow> workflow_instance" where
  "fold_metrics r i =
     i\<lparr>inst_total_cost := inst_total_cost i + result_cost r,
       inst_total_latency := inst_total_latency i + result_latency r,
       inst_total_tokens := inst_total_tokens i + result_tokens r,
       inst_avg_confidence :=
         (inst_avg_confidence i * of_nat (inst_stage_count i) + result_confidence r)
           / of_nat (inst_stage_count i + 1),
       inst_stage_count := inst_stage_count i + 1\<rparr>"

text \<open>
  Modelled from the spec: the stages that transitively depend on a stage, found by adding
  the direct dependents of the stages found so far, once per stage of the graph.
\<close>

definition depends_directly :: "string list \<Rightarrow> stage_def \<Rightarrow> bool" where
  "depends_directly S sd \<longleftrightarrow> list_ex (\<lambda>d. d \<in> set S) (stage_deps sd)"

fun close_dependents :: "nat \<Rightarrow> stage_def list \<Rightarrow> string list \<Rightarrow> string list" where
  "close_dependents 0 defs S = S"
| "close_dependents (Suc n) defs S =
     close_dependents n defs
       (S @ filter (\<lambda>m. m \<notin> set S) (stage_names (filter (depends_directly S) defs)))"

definition dependents :: "stage_graph \<Rightarrow> string \<Rightarrow> string list" where
  "dependents g s =
     filter (\<lambda>m. m \<noteq> s) (close_dependents (length (graph_stages g)) (graph_stages g) [s])"

text \<open>
  Modelled from the spec: a stage is required for the terminal output when it is the
  terminal stage or the terminal stage transitively depends on it.
\<close>

definition required :: "stage_graph \<Rightarrow> string \<Rightarrow> bool" where
  "required g s \<longleftrightarrow> s = graph_terminal g \<or> graph_terminal g \<in> set (dependents g s)"

text \<open>
  Modelled from the spec: a stage that has not started is marked Skipped, with its event.
\<close>

definition skip :: "workflow_instance \<Rightarrow> string \<Rightarrow> workflow_instance" where
  "skip i s =
     (if inst_stage_status i s = Pending then emit s EvSkipped None (set_stage s Skipped i) else i)"

text \<open>
  Modelled from the spec: a successful completion (step 4) records the result in the
  context, marks the stage Completed, folds the metrics and emits stage-completed.  When
  the stage is the terminal one the instance is Completed, its final output is read from
  the terminal stage's context entry and workflow-completed is emitted (step 6).
\<close>

definition record_success :: "stage_graph \<Rightarrow> string \<Rightarrow> stage_result \<Rightarrow> workflow_instance \<Rightarrow> workflow_instance" where
  "record_success g s r i =
     (let i1 = set_stage s Completed (i\<lparr>inst_context := inst_context i @ [(s, r)]\<rparr>);
          i2 = fold_metrics r i1;
          i3 = emit s EvCompleted (Some r) i2
      in if s = graph_terminal g
         then emit ''workflow'' EvCompleted None
                (i3\<lparr>inst_status := InstanceCompleted,
                    inst_final_output :=
                      map_option result_output (map_of (inst_context i3) (graph_terminal g))\<rparr>)
         else i3)"

text \<open>
  Modelled from the spec: a failed completion (step 4) marks the stage Failed, emits
  stage-failed and marks the stages that transitively depend on it Skipped (section 8 asks
  this also when the failed stage is required).  A required stage fails the instance,
  which stops all further scheduling; otherwise the run continues.
\<close>

definition record_failure :: "stage_graph \<Rightarrow> string \<Rightarrow> stage_error \<Rightarrow> workflow_instance \<Rightarrow> workflow_instance" where
  "record_failure g s e i =
     (let i1 = emit s EvFailed None (set_stage s Failed i);
          i2 = foldl skip i1 (dependents g s)
      in if required g s
         then emit ''workflow'' EvFailed None (i2\<lparr>inst_status := InstanceFailed\<rparr>)
         else i2)"

text \<open>
  Modelled from the spec: the completion of an in-flight stage, as the orchestrator
  receives it.  A completion for a stage that is not Running, or for an instance that is
  already terminal, is discarded.
\<close>

datatype completion = Succeeded string stage_result | Errored string stage_error

fun completed_stage :: "completion \<Rightarrow> string" where
  "completed_stage (Succeeded s r) = s"
| "completed_stage (Errored s e) = s"

definition on_completion :: "stage_graph \<Rightarrow> completion \<Rightarrow> workflow_instance \<Rightarrow> workflow_instance" where
  "on_completion g c i =
     (if inst_status i \<noteq> InstanceRunning \<or> inst_stage_status i (completed_stage c) \<noteq> Running
      then i
      else case c of
             Succeeded s r \<Rightarrow> record_success g s r i
           | Errored s e \<Rightarrow> record_failure g s e i)"

text \<open>
  Modelled from the spec: the orchestrator alternates scheduling rounds with completions,
  which arrive in any order; every reachable state of an instance is the result of a list
  of such steps.
\<close>

datatype sched_step = Schedule | Complete completion

fun apply_step :: "stage_graph \<Rightarrow> workflow_instance \<Rightarrow> sched_step \<Rightarrow> workflow_instance" where
  "apply_step g i Schedule = schedule g i"
| "apply_step g i (Complete c) = on_completion g c i"

definition run_steps :: "stage_graph \<Rightarrow> workflow_instance \<Rightarrow> sched_step list \<Rightarrow> workflow_instance" where
  "run_steps g i sts = foldl (apply_step g) i sts"

text \<open>
  Modelled from the spec: a stage reads only the context entries of its declared
  dependencies.  An executor stands for the execution capabilities of all stages: from the
  stage name, the request and those entries it gives the stage's result or its error (a
  missed stage deadline is the error \<open>StageTimeoutError\<close>).
\<close>

definition dep_results :: "stage_graph \<Rightarrow> string \<Rightarrow> workflow_instance \<Rightarrow> (string \<times> stage_result) list" where
  "dep_results g s i =
     filter (\<lambda>(d, r). d \<in> set (concat (map stage_deps (filter (\<lambda>sd. stage_name sd = s) (graph_stages g)))))
       (inst_context i)"

type_synonym executor = "string \<Rightarrow> string \<Rightarrow> (string \<times> stage_result) list \<Rightarrow> stage_error + stage_result"

definition outcome :: "executor \<Rightarrow> stage_graph \<Rightarrow> string \<Rightarrow> workflow_instance \<Rightarrow> completion" where
  "outcome ex g s i =
     (case ex s (inst_request i) (dep_results g s i) of
        Inl e \<Rightarrow> Errored s e
      | Inr r \<Rightarrow> Succeeded s r)"

text \<open>
  Modelled from the spec: the orchestration loop.  Each round schedules, stops when the
  instance is terminal, and otherwise awaits the next completion: \<open>nxt\<close> says which of the
  in-flight stages finishes first.  The loop is bounded by the number of rounds given.
\<close>

fun drive :: "nat \<Rightarrow> stage_graph \<Rightarrow> executor \<Rightarrow> (string list \<Rightarrow> nat) \<Rightarrow> workflow_instance \<Rightarrow> workflow_instance" where
  "drive 0 g ex nxt i = i"
| "drive (Suc n) g ex nxt i =
     (let i1 = schedule g i in
      if inst_status i1 \<noteq> InstanceRunning then i1
      else case running_stages g i1 of
             [] \<Rightarrow> i1
           | r # rs \<Rightarrow>
               drive n g ex nxt
                 (on_completion g (outcome ex g ((r # rs) ! (nxt (r # rs) mod length (r # rs))) i1) i1))"

text \<open>
  Modelled from the spec: one execution of a graph for one request, with one round more
  than the graph has stages.
\<close>

definition run_workflow :: "stage_graph \<Rightarrow> executor \<Rightarrow> (string list \<Rightarrow> nat) \<Rightarrow> string \<Rightarrow> string \<Rightarrow> workflow_instance" where
  "run_workflow g ex nxt wid request =
     drive (Suc (length (graph_stages g))) g ex nxt (start_instance (create_instance wid request))"

text \<open>
  Modelled from the spec: scenario A of section 8 as a graph.  Its terminal stage is Q: the
  scenario names Q's output as the final output, and every other stage is on the path
  to Q.
\<close>

definition graph_A :: stage_graph where
  "graph_A = \<lparr>graph_stages = scenario_A, graph_terminal = ''qa''\<rparr>"

text \<open>
  Sample data for running scenario A: a stage result with a given output and confidence,
  and an executor under which every stage succeeds.  The four dependent stages have the
  confidences of the scenario, 0.9, 0.8, 0.85 and 0.95; the scenario gives none for the
  classifier, and 0.5 stands in for it.
\<close>

definition res :: "string \<Rightarrow> rat \<Rightarrow> stage_result" where
  "res out c =
     \<lparr>result_output = out, result_confidence = c, result_cost = 1/1000, result_latency = 100,
      result_tokens = 50\<rparr>"

definition ex_A :: executor where
  "ex_A s request deps =
     (if s = ''classifier'' then Inr (res ''refund'' (1/2))
      else if s = ''researcher'' then Inr (res ''order found'' (9/10))
      else if s = ''validator'' then Inr (res ''approved'' (8/10))
      else if s = ''writer'' then Inr (res ''Dear customer'' (85/100))
      else Inr (res ''APPROVE'' (95/100)))"

section \<open>Properties of the orchestrator\<close>

text \<open>The declared dependencies of the stage called \<open>s\<close>.\<close>

definition deps_of :: "stage_graph \<Rightarrow> string \<Rightarrow> string list" where
  "deps_of g s = concat (map stage_deps (filter (\<lambda>sd. stage_name sd = s) (graph_stages g)))"

subsection \<open>What each operation changes\<close>

lemma emit_fields [simp]:
  "inst_id (emit s k p i) = inst_id i"
  "inst_request (emit s k p i) = inst_request i"
  "inst_status (emit s k p i) = inst_status i"
  "inst_stage_status (emit s k p i) = inst_stage_status i"
  "inst_context (emit s k p i) = inst_context i"
  "inst_final_output (emit s k p i) = inst_final_output i"
  "inst_total_cost (emit s k p i) = inst_total_cost i"
  "inst_total_latency (emit s k p i) = inst_total_latency i"
  "inst_total_tokens (emit s k p i) = inst_total_tokens i"
  "inst_avg_confidence (emit s k p i) = inst_avg_confidence i"
  "inst_stage_count (emit s k p i) = inst_stage_count i"
  by (simp_all add: emit_def)

lemma set_stage_fields [simp]:
  "inst_id (set_stage s st i) = inst_id i"
  "inst_request (set_stage s st i) = inst_request i"
  "inst_status (set_stage s st i) = inst_status i"
  "inst_stage_status (set_stage s st i) = (inst_stage_status i)(s := st)"
  "inst_context (set_stage s st i) = inst_context i"
  "inst_final_output (set_stage s st i) = inst_final_output i"
  "inst_total_cost (set_stage s st i) = inst_total_cost i"
  "inst_total_latency (set_stage s st i) = inst_total_latency i"
  "inst_total_tokens (set_stage s st i) = inst_total_tokens i"
  "inst_avg_confidence (set_stage s st i) = inst_avg_confidence i"
  "inst_stage_count (set_stage s st i) = inst_stage_count i"
  "inst_events (set_stage s st i) = inst_events i"
  by (simp_all add: set_stage_def)

lemma fold_metrics_fields [simp]:
  "inst_id (fold_metrics r i) = inst_id i"
  "inst_request (fold_metrics r i) = inst_request i"
  "inst_status (fold_metrics r i) = inst_status i"
  "inst_stage_status (fold_metrics r i) = inst_stage_status i"
  "inst_context (fold_metrics r i) = inst_context i"
  "inst_final_output (fold_metrics r i) = inst_final_output i"
  "inst_events (fold_metrics r i) = inst_events i"
  by (simp_all add: fold_metrics_def)

lemma launch_all_status:
  "inst_stage_status (foldl launch i ss) n =
     (if n \<in> set ss then Running else inst_stage_status i n)"
  by (induction ss arbitrary: i) (auto simp: launch_def)

lemma launch_all_fields:
  "inst_id (foldl launch i ss) = inst_id i"
  "inst_request (foldl launch i ss) = inst_request i"
  "inst_status (foldl launch i ss) = inst_status i"
  "inst_context (foldl launch i ss) = inst_context i"
  "inst_final_output (foldl launch i ss) = inst_final_output i"
  "inst_total_cost (foldl launch i ss) = inst_total_cost i"
  "inst_total_latency (foldl launch i ss) = inst_total_latency i"
  "inst_total_tokens (foldl launch i ss) = inst_total_tokens i"
  "inst_avg_confidence (foldl launch i ss) = inst_avg_confidence i"
  "inst_stage_count (foldl launch i ss) = inst_stage_count i"
  by (induction ss arbitrary: i) (simp_all add: launch_def)

lemma skip_all_status:
  "inst_stage_status (foldl skip i ss) n =
     (if n \<in> set ss \<and> inst_stage_status i n = Pending then Skipped else inst_stage_status i n)"
  by (induction ss arbitrary: i) (auto simp: skip_def)

lemma skip_all_fields:
  "inst_id (foldl skip i ss) = inst_id i"
  "inst_request (foldl skip i ss) = inst_request i"
  "inst_status (foldl skip i ss) = inst_status i"
  "inst_context (foldl skip i ss) = inst_context i"
  "inst_final_output (foldl skip i ss) = inst_final_output i"
  "inst_total_cost (foldl skip i ss) = inst_total_cost i"
  "inst_total_latency (foldl skip i ss) = inst_total_latency i"
  "inst_total_tokens (foldl skip i ss) = inst_total_tokens i"
  "inst_avg_confidence (foldl skip i ss) = inst_avg_confidence i"
  "inst_stage_count (foldl skip i ss) = inst_stage_count i"
  by (induction ss arbitrary: i) (simp_all add: skip_def)

subsection \<open>Invariants carry over to every reachable state\<close>

lemma run_steps_preserves:
  assumes "\<And>i. P i \<Longrightarrow> P (schedule g i)"
      and "\<And>i c. P i \<Longrightarrow> P (on_completion g c i)"
      and "P i"
  shows "P (run_steps g i sts)"
  using assms(3)
proof (induction sts arbitrary: i)
  case Nil
  then show ?case by (simp add: run_steps_def)
next
  case (Cons st sts)
  have "P (apply_step g i st)"
    using assms(1,2) Cons.prems by (cases st) simp_all
  from Cons.IH [OF this] show ?case by (simp add: run_steps_def)
qed

lemma drive_preserves:
  assumes "\<And>i. P i \<Longrightarrow> P (schedule g i)"
      and "\<And>i c. P i \<Longrightarrow> P (on_completion g c i)"
      and "P i"
  shows "P (drive n g ex nxt i)"
  using assms(3)
proof (induction n arbitrary: i)
  case 0
  then show ?case by simp
next
  case (Suc n)
  from assms(1) Suc.prems have s: "P (schedule g i)" .
  show ?case
  proof (cases "inst_status (schedule g i) \<noteq> InstanceRunning")
    case True
    with s show ?thesis by (simp add: Let_def)
  next
    case False
    show ?thesis
    proof (cases "running_stages g (schedule g i)")
      case Nil
      with False s show ?thesis by (simp add: Let_def)
    next
      case (Cons r rs)
      from assms(2) s Suc.IH Cons False show ?thesis by (simp add: Let_def)
    qed
  qed
qed

text \<open>A terminal instance is immutable.\<close>

lemma schedule_terminal: "inst_status i \<noteq> InstanceRunning \<Longrightarrow> schedule g i = i"
  by (simp add: schedule_def)

lemma on_completion_terminal: "inst_status i \<noteq> InstanceRunning \<Longrightarrow> on_completion g c i = i"
  by (simp add: on_completion_def)

subsection \<open>Stages start after their dependencies\<close>

text \<open>A stage has been launched when it is Running, Completed or Failed.\<close>

definition launched :: "stage_status \<Rightarrow> bool" where
  "launched st \<longleftrightarrow> st = Running \<or> st = Completed \<or> st = Failed"

definition deps_inv :: "stage_graph \<Rightarrow> workflow_instance \<Rightarrow> bool" where
  "deps_inv g i \<longleftrightarrow>
     (\<forall>s. launched (inst_stage_status i s) \<longrightarrow>
        s \<in> set (stage_names (graph_stages g))
        \<and> (\<forall>d \<in> set (deps_of g s). inst_stage_status i d = Completed))"

lemma ready_set_deps:
  assumes "distinct (stage_names (graph_stages g))" and "s \<in> set (ready_set g i)"
  shows "inst_stage_status i s = Pending \<and> s \<in> set (stage_names (graph_stages g))
      \<and> (\<forall>d \<in> set (deps_of g s). inst_stage_status i d = Completed)"
proof -
  from assms(2) obtain sd where sd: "sd \<in> set (graph_stages g)" "is_ready i sd" "stage_name sd = s"
    by (auto simp: ready_set_def stage_names_def)
  from assms(1) have inj: "inj_on stage_name (set (graph_stages g))"
    by (simp add: stage_names_def distinct_map)
  have "\<forall>sd' \<in> set (graph_stages g). stage_name sd' = s \<longrightarrow> sd' = sd"
    using inj sd by (auto dest: inj_onD)
  then have "set (deps_of g s) \<subseteq> set (stage_deps sd)"
    by (auto simp: deps_of_def)
  with sd show ?thesis by (auto simp: is_ready_def list_all_iff stage_names_def)
qed

lemma schedule_launches:
  assumes "inst_stage_status (schedule g i) s \<noteq> inst_stage_status i s"
  shows "s \<in> set (ready_set g i) \<and> inst_stage_status (schedule g i) s = Running"
  using assms by (auto simp: schedule_def launch_all_status split: if_splits)

lemma schedule_status_cases:
  "inst_stage_status (schedule g i) s = inst_stage_status i s
   \<or> (s \<in> set (ready_set g i) \<and> inst_stage_status (schedule g i) s = Running)"
  using schedule_launches by blast

lemma on_completion_status:
  "inst_stage_status (on_completion g c i) s = inst_stage_status i s
   \<or> (inst_stage_status i s = Running \<and> s = completed_stage c
        \<and> (inst_stage_status (on_completion g c i) s = Completed
            \<or> inst_stage_status (on_completion g c i) s = Failed))
   \<or> (inst_stage_status i s = Pending \<and> inst_stage_status (on_completion g c i) s = Skipped)"
  by (cases c)
    (auto simp: on_completion_def record_success_def record_failure_def Let_def skip_all_status)

lemma deps_inv_schedule:
  assumes d: "distinct (stage_names (graph_stages g))" and inv: "deps_inv g i"
  shows "deps_inv g (schedule g i)"
  unfolding deps_inv_def
proof (intro allI impI)
  fix s assume l: "launched (inst_stage_status (schedule g i) s)"
  have keep: "inst_stage_status i x = Completed \<Longrightarrow> inst_stage_status (schedule g i) x = Completed" for x
    using schedule_status_cases [of g i x] ready_set_deps [OF d, of x i] by auto
  from schedule_status_cases [of g i s]
  show "s \<in> set (stage_names (graph_stages g))
      \<and> (\<forall>d \<in> set (deps_of g s). inst_stage_status (schedule g i) d = Completed)"
  proof
    assume "inst_stage_status (schedule g i) s = inst_stage_status i s"
    with l inv keep show ?thesis by (auto simp: deps_inv_def)
  next
    assume "s \<in> set (ready_set g i) \<and> inst_stage_status (schedule g i) s = Running"
    with ready_set_deps [OF d, of s i] keep show ?thesis by auto
  qed
qed

lemma deps_inv_on_completion:
  assumes inv: "deps_inv g i"
  shows "deps_inv g (on_completion g c i)"
  unfolding deps_inv_def
proof (intro allI impI)
  fix s assume l: "launched (inst_stage_status (on_completion g c i) s)"
  have keep: "inst_stage_status i x = Completed \<Longrightarrow> inst_stage_status (on_completion g c i) x = Completed" for x
    using on_completion_status [of g c i x] by auto
  from on_completion_status [of g c i s] l
  have "launched (inst_stage_status i s)" by (auto simp: launched_def)
  with inv keep show "s \<in> set (stage_names (graph_stages g))
      \<and> (\<forall>d \<in> set (deps_of g s). inst_stage_status (on_completion g c i) d = Completed)"
    by (auto simp: deps_inv_def)
qed

lemma deps_inv_start: "deps_inv g (start_instance (create_instance wid request))"
  by (simp add: deps_inv_def start_instance_def create_instance_def launched_def emit_def)

lemma build_graph_valid:
  assumes "build_graph defs terminal registry = (Inr g, registry')"
  shows "graph_stages g = defs \<and> graph_terminal g = terminal
     \<and> distinct (stage_names defs) \<and> terminal \<in> set (stage_names defs) \<and> \<not> has_cycle defs
     \<and> registry' = registry @ defs"
proof -
  from assms have v: "validate defs terminal = None"
    and g: "g = \<lparr>graph_stages = defs, graph_terminal = terminal\<rparr>" "registry' = registry @ defs"
    by (auto simp: build_graph_def split: option.splits)
  from v have dup: "first_duplicate (stage_names defs) = None"
    and unk: "first_unknown defs terminal = None"
    and topo: "topo_order defs [] \<noteq> None"
    by (auto simp: validate_def split: option.splits)
  from dup have dist: "distinct (stage_names defs)" by (simp add: first_duplicate_None)
  have t: "terminal \<in> set (stage_names defs)"
  proof (rule ccontr)
    assume "terminal \<notin> set (stage_names defs)"
    then have "terminal \<in> set (filter (\<lambda>d. d \<notin> set (stage_names defs))
        (concat (map stage_deps defs) @ [terminal]))" by simp
    then have "filter (\<lambda>d. d \<notin> set (stage_names defs))
        (concat (map stage_deps defs) @ [terminal]) \<noteq> []" by (metis empty_iff list.set(1))
    with unk show False by (auto simp: first_unknown_def split: list.splits)
  qed
  from topo dist topo_order_acyclic have "\<not> has_cycle defs" by blast
  with g dist t show ?thesis by simp
qed

text \<open>
  C1.  Take a graph that construction accepted and any state an instance of it reaches
  through scheduling rounds and completions in any order.  If a step from that state
  turns a stage Running, every declared dependency of the stage is Completed in that
  state, the moment of launch; and in the state itself every stage that has been launched
  has all its dependencies Completed.
\<close>

theorem launch_after_dependencies:
  assumes "build_graph defs terminal registry = (Inr g, registry')"
      and "i = run_steps g (start_instance (create_instance wid request)) sts"
  shows "(\<forall>st s. inst_stage_status i s \<noteq> Running \<and> inst_stage_status (apply_step g i st) s = Running \<longrightarrow>
            (\<forall>d \<in> set (deps_of g s). inst_stage_status i d = Completed))
       \<and> (\<forall>s. launched (inst_stage_status i s) \<longrightarrow>
            (\<forall>d \<in> set (deps_of g s). inst_stage_status i d = Completed))"
proof -
  from build_graph_valid [OF assms(1)] have d: "distinct (stage_names (graph_stages g))" by simp
  have a: "\<forall>st s. inst_stage_status i s \<noteq> Running \<and> inst_stage_status (apply_step g i st) s = Running \<longrightarrow>
            (\<forall>d \<in> set (deps_of g s). inst_stage_status i d = Completed)"
  proof (intro allI impI)
    fix st s
    assume h: "inst_stage_status i s \<noteq> Running \<and> inst_stage_status (apply_step g i st) s = Running"
    show "\<forall>d \<in> set (deps_of g s). inst_stage_status i d = Completed"
    proof (cases st)
      case Schedule
      with h schedule_status_cases [of g i s] have "s \<in> set (ready_set g i)" by auto
      with ready_set_deps [OF d] show ?thesis by blast
    next
      case (Complete c)
      with h on_completion_status [of g c i s] show ?thesis by auto
    qed
  qed
  have "deps_inv g i"
    unfolding assms(2)
    by (rule run_steps_preserves [where P = "deps_inv g"])
      (simp_all add: deps_inv_schedule [OF d] deps_inv_on_completion deps_inv_start)
  then have b: "\<forall>s. launched (inst_stage_status i s) \<longrightarrow>
            (\<forall>d \<in> set (deps_of g s). inst_stage_status i d = Completed)"
    by (simp add: deps_inv_def)
  from a b show ?thesis by blast
qed


text \<open>After the classifier completed, a scheduling round launches the researcher.\<close>

definition classifier_done :: workflow_instance where
  "classifier_done =
     run_steps graph_A (start_instance (create_instance ''wf-1'' ''refund please''))
       [Schedule, Complete (Succeeded ''classifier'' (res ''refund'' (1/2)))]"

lemma build_graph_A: "build_graph scenario_A ''qa'' [] = (Inr graph_A, scenario_A)"
  by (simp add: build_graph_def validate_def scenario_A_def stage_names_def first_unknown_def
      topo_order.simps resolved_def graph_A_def)

theorem launch_after_dependencies_witness:
  "inst_stage_status classifier_done ''researcher'' = Pending
   \<and> inst_stage_status (apply_step graph_A classifier_done Schedule) ''researcher'' = Running
   \<and> inst_stage_status classifier_done ''classifier'' = Completed"
proof -
  have p: "inst_stage_status classifier_done ''researcher'' = Pending"
    by (simp add: classifier_done_def run_steps_def schedule_def ready_set_def is_ready_def
        stage_names_def graph_A_def scenario_A_def running_stages_def all_terminal_def
        launch_def on_completion_def record_success_def start_instance_def
        create_instance_def Let_def)
  have q: "inst_stage_status (apply_step graph_A classifier_done Schedule) ''researcher'' = Running"
    by (simp add: classifier_done_def run_steps_def schedule_def ready_set_def is_ready_def
        stage_names_def graph_A_def scenario_A_def running_stages_def all_terminal_def
        launch_def on_completion_def record_success_def start_instance_def
        create_instance_def Let_def)
  have d: "''classifier'' \<in> set (deps_of graph_A ''researcher'')"
    by (simp add: deps_of_def graph_A_def scenario_A_def)
  from p have p': "inst_stage_status classifier_done ''researcher'' \<noteq> Running" by simp
  from launch_after_dependencies [OF build_graph_A classifier_done_def] p' q d
  have "inst_stage_status classifier_done ''classifier'' = Completed" by blast
  with p q show ?thesis by simp
qed

subsection \<open>Metrics\<close>

text \<open>
  The arithmetic mean of a list (0 for the empty list), and the confidences recorded in
  the context of an instance, in completion order.
\<close>

definition mean :: "rat list \<Rightarrow> rat" where
  "mean xs = (if xs = [] then 0 else sum_list xs / of_nat (length xs))"

definition confidences :: "workflow_instance \<Rightarrow> rat list" where
  "confidences i = map (\<lambda>(s, r). result_confidence r) (inst_context i)"

text \<open>
  The invariant of the metrics: the count and the running mean agree with the context,
  and the context has one entry for each Completed stage and no other.
\<close>

definition metrics_inv :: "workflow_instance \<Rightarrow> bool" where
  "metrics_inv i \<longleftrightarrow>
     inst_stage_count i = length (inst_context i)
     \<and> inst_avg_confidence i = mean (confidences i)
     \<and> distinct (map fst (inst_context i))
     \<and> set (map fst (inst_context i)) = {s. inst_stage_status i s = Completed}"

lemma mean_snoc:
  "(mean xs * of_nat (length xs) + c) / of_nat (length xs + 1) = mean (xs @ [c])"
  by (simp add: mean_def)

lemma ready_pending: "s \<in> set (ready_set g i) \<Longrightarrow> inst_stage_status i s = Pending"
  by (auto simp: ready_set_def stage_names_def is_ready_def)

lemma schedule_context [simp]: "inst_context (schedule g i) = inst_context i"
  by (simp add: schedule_def launch_all_fields)

lemma schedule_metrics [simp]:
  "inst_stage_count (schedule g i) = inst_stage_count i"
  "inst_avg_confidence (schedule g i) = inst_avg_confidence i"
  by (simp_all add: schedule_def launch_all_fields)

lemma schedule_completed:
  "inst_stage_status (schedule g i) s = Completed \<longleftrightarrow> inst_stage_status i s = Completed"
  using schedule_status_cases [of g i s] ready_pending [of s g i] by auto

lemma metrics_inv_schedule: "metrics_inv i \<Longrightarrow> metrics_inv (schedule g i)"
  by (simp add: metrics_inv_def confidences_def schedule_completed)

lemma metrics_inv_success:
  assumes "metrics_inv i" and "inst_stage_status i s = Running"
  shows "metrics_inv (record_success g s r i)"
proof -
  from assms have n: "s \<notin> set (map fst (inst_context i))"
    by (auto simp: metrics_inv_def)
  have c: "inst_context (record_success g s r i) = inst_context i @ [(s, r)]"
    by (simp add: record_success_def Let_def)
  have st: "inst_stage_status (record_success g s r i) = (inst_stage_status i)(s := Completed)"
    by (simp add: record_success_def Let_def)
  have cnt: "inst_stage_count (record_success g s r i) = inst_stage_count i + 1"
    by (simp add: record_success_def Let_def fold_metrics_def emit_def)
  have avg: "inst_avg_confidence (record_success g s r i) =
      (inst_avg_confidence i * of_nat (inst_stage_count i) + result_confidence r)
        / of_nat (inst_stage_count i + 1)"
    by (simp add: record_success_def Let_def fold_metrics_def emit_def set_stage_def)
  from assms(1) have a: "inst_stage_count i = length (confidences i)"
    and b: "inst_avg_confidence i = mean (confidences i)"
    by (simp_all add: metrics_inv_def confidences_def)
  have "inst_avg_confidence (record_success g s r i) = mean (confidences i @ [result_confidence r])"
    unfolding avg a b by (rule mean_snoc)
  with assms(1) n c st cnt show ?thesis
    by (auto simp: metrics_inv_def confidences_def)
qed

lemma record_failure_metrics:
  "inst_context (record_failure g s e i) = inst_context i"
  "inst_stage_count (record_failure g s e i) = inst_stage_count i"
  "inst_avg_confidence (record_failure g s e i) = inst_avg_confidence i"
  by (simp_all add: record_failure_def Let_def skip_all_fields)

lemma record_failure_completed:
  "inst_stage_status i s = Running \<Longrightarrow>
     inst_stage_status (record_failure g s e i) x = Completed \<longleftrightarrow> inst_stage_status i x = Completed"
  by (auto simp: record_failure_def Let_def skip_all_status)

lemma metrics_inv_on_completion: "metrics_inv i \<Longrightarrow> metrics_inv (on_completion g c i)"
proof (cases c)
  case (Succeeded s r)
  assume "metrics_inv i"
  with Succeeded metrics_inv_success show ?thesis by (simp add: on_completion_def)
next
  case (Errored s e)
  assume "metrics_inv i"
  with Errored show ?thesis
    by (simp add: on_completion_def metrics_inv_def confidences_def record_failure_metrics
        record_failure_completed)
qed

lemma metrics_inv_start: "metrics_inv (start_instance (create_instance wid request))"
  by (simp add: metrics_inv_def start_instance_def create_instance_def confidences_def mean_def)

text \<open>
  A run of scenario A in which the in-flight stage listed first always finishes first.
\<close>

definition first_in_flight :: "string list \<Rightarrow> nat" where
  "first_in_flight rs = 0"

definition run_A :: workflow_instance where
  "run_A = run_workflow graph_A ex_A first_in_flight ''wf-1'' ''refund please''"


subsection \<open>The loop ends in a terminal state\<close>

text \<open>
  The number of stages that are still Pending or Running; each completion lowers it.
\<close>

definition unfinished_count :: "stage_graph \<Rightarrow> workflow_instance \<Rightarrow> nat" where
  "unfinished_count g i =
     length (filter (\<lambda>n. unfinished (inst_stage_status i n)) (stage_names (graph_stages g)))"

text \<open>
  While an instance is Running its terminal stage is unfinished; an instance that has been
  started is never Created again.
\<close>

definition term_inv :: "stage_graph \<Rightarrow> workflow_instance \<Rightarrow> bool" where
  "term_inv g i \<longleftrightarrow>
     inst_status i \<noteq> Created
     \<and> (inst_status i = InstanceRunning \<longrightarrow> unfinished (inst_stage_status i (graph_terminal g)))"

text \<open>
  A Completed instance has a context entry for the terminal stage and its final output is
  that entry's output; any other instance has no final output.
\<close>

definition output_inv :: "stage_graph \<Rightarrow> workflow_instance \<Rightarrow> bool" where
  "output_inv g i \<longleftrightarrow>
     (inst_status i = InstanceCompleted \<longrightarrow>
        map_of (inst_context i) (graph_terminal g) \<noteq> None
        \<and> inst_final_output i =
            map_option result_output (map_of (inst_context i) (graph_terminal g)))
     \<and> (inst_status i \<noteq> InstanceCompleted \<longrightarrow> inst_final_output i = None)"

lemma filter_length_mono:
  "\<forall>x \<in> set xs. Q x \<longrightarrow> P x \<Longrightarrow> length (filter Q xs) \<le> length (filter P xs)"
  by (induction xs) auto

lemma filter_length_less:
  "\<forall>x \<in> set xs. Q x \<longrightarrow> P x \<Longrightarrow> s \<in> set xs \<Longrightarrow> P s \<Longrightarrow> \<not> Q s \<Longrightarrow>
     length (filter Q xs) < length (filter P xs)"
proof (induction xs)
  case Nil
  then show ?case by simp
next
  case (Cons x xs)
  show ?case
  proof (cases "x = s")
    case True
    from Cons.prems(1) have "length (filter Q xs) \<le> length (filter P xs)"
      by (intro filter_length_mono) simp
    with True Cons.prems show ?thesis by simp
  next
    case False
    with Cons.prems have "s \<in> set xs" by simp
    from Cons.IH [OF _ this Cons.prems(3,4)] Cons.prems(1)
    have "length (filter Q xs) < length (filter P xs)" by simp
    with Cons.prems(1) show ?thesis by auto
  qed
qed

lemma schedule_inst_status:
  "inst_status (schedule g i) = inst_status i
   \<or> (inst_status i = InstanceRunning \<and> inst_status (schedule g i) = InstanceFailed)"
  by (simp add: schedule_def launch_all_fields)

lemma schedule_unfinished:
  "unfinished (inst_stage_status (schedule g i) n) = unfinished (inst_stage_status i n)"
  using schedule_status_cases [of g i n] ready_pending [of n g i]
  by (auto simp: unfinished_def)

lemma schedule_count: "unfinished_count g (schedule g i) = unfinished_count g i"
  by (simp add: unfinished_count_def schedule_unfinished)

lemma term_inv_schedule: "term_inv g i \<Longrightarrow> term_inv g (schedule g i)"
  using schedule_inst_status [of g i] by (auto simp: term_inv_def schedule_unfinished)

lemma on_completion_done:
  assumes "inst_status i = InstanceRunning" and "inst_stage_status i (completed_stage c) = Running"
  shows "\<not> unfinished (inst_stage_status (on_completion g c i) (completed_stage c))"
  using assms
  by (cases c)
    (auto simp: on_completion_def record_success_def record_failure_def Let_def
      skip_all_status unfinished_def)

lemma on_completion_unfinished:
  "unfinished (inst_stage_status (on_completion g c i) n) \<Longrightarrow> unfinished (inst_stage_status i n)"
  using on_completion_status [of g c i n] by (auto simp: unfinished_def)

lemma on_completion_count:
  assumes "inst_status i = InstanceRunning" and "inst_stage_status i (completed_stage c) = Running"
      and "completed_stage c \<in> set (stage_names (graph_stages g))"
  shows "unfinished_count g (on_completion g c i) < unfinished_count g i"
  unfolding unfinished_count_def
proof (rule filter_length_less [of _ _ _ "completed_stage c"])
  show "\<forall>x \<in> set (stage_names (graph_stages g)).
      unfinished (inst_stage_status (on_completion g c i) x) \<longrightarrow> unfinished (inst_stage_status i x)"
    using on_completion_unfinished by blast
  show "completed_stage c \<in> set (stage_names (graph_stages g))" by (rule assms(3))
  show "unfinished (inst_stage_status i (completed_stage c))"
    using assms(2) by (simp add: unfinished_def)
  show "\<not> unfinished (inst_stage_status (on_completion g c i) (completed_stage c))"
    by (rule on_completion_done [OF assms(1,2)])
qed

lemma term_inv_on_completion: "term_inv g i \<Longrightarrow> term_inv g (on_completion g c i)"
  by (cases c)
    (auto simp: term_inv_def on_completion_def record_success_def record_failure_def Let_def
      skip_all_status skip_all_fields required_def unfinished_def)

lemma term_inv_start: "term_inv g (start_instance (create_instance wid request))"
  by (simp add: term_inv_def start_instance_def create_instance_def unfinished_def)

lemma output_inv_schedule: "output_inv g i \<Longrightarrow> output_inv g (schedule g i)"
  by (auto simp: output_inv_def schedule_def launch_all_fields)

lemma output_inv_on_completion: "output_inv g i \<Longrightarrow> output_inv g (on_completion g c i)"
  by (cases c)
    (auto simp: output_inv_def on_completion_def record_success_def record_failure_def Let_def
      skip_all_fields map_add_def split: option.splits)

lemma output_inv_start: "output_inv g (start_instance (create_instance wid request))"
  by (simp add: output_inv_def start_instance_def create_instance_def)

lemma outcome_stage [simp]: "completed_stage (outcome ex g s i) = s"
  by (simp add: outcome_def split: sum.splits)

lemma no_stage_in_flight:
  assumes "inst_status (schedule g i) = InstanceRunning" and "running_stages g (schedule g i) = []"
  shows "all_terminal g i"
proof -
  from assms(1) schedule_inst_status [of g i] have r: "inst_status i = InstanceRunning" by auto
  have "ready_set g i = []"
  proof (rule ccontr)
    assume "ready_set g i \<noteq> []"
    then obtain s where s: "s \<in> set (ready_set g i)" by (cases "ready_set g i") auto
    with r assms(1) have "inst_stage_status (schedule g i) s = Running"
      by (auto simp: schedule_def launch_all_status split: if_splits)
    moreover from s have "s \<in> set (stage_names (graph_stages g))"
      by (auto simp: ready_set_def stage_names_def)
    ultimately have "s \<in> set (running_stages g (schedule g i))"
      by (simp add: running_stages_def)
    with assms(2) show False by simp
  qed
  with r assms show ?thesis by (auto simp: schedule_def split: if_splits)
qed

lemma drive_terminal:
  assumes t: "graph_terminal g \<in> set (stage_names (graph_stages g))"
  shows "term_inv g i \<Longrightarrow> unfinished_count g i < n \<Longrightarrow>
     inst_status (drive n g ex nxt i) = InstanceCompleted
     \<or> inst_status (drive n g ex nxt i) = InstanceFailed"
proof (induction n arbitrary: i)
  case 0
  then show ?case by simp
next
  case (Suc n)
  let ?i1 = "schedule g i"
  from Suc.prems(1) have inv1: "term_inv g ?i1" by (rule term_inv_schedule)
  show ?case
  proof (cases "inst_status ?i1 = InstanceRunning")
    case False
    with inv1 have "inst_status ?i1 = InstanceCompleted \<or> inst_status ?i1 = InstanceFailed"
      by (cases "inst_status ?i1") (auto simp: term_inv_def)
    with False show ?thesis by (simp add: Let_def)
  next
    case True
    show ?thesis
    proof (cases "running_stages g ?i1")
      case Nil
      from no_stage_in_flight [OF True Nil] t
      have "\<not> unfinished (inst_stage_status i (graph_terminal g))"
        by (auto simp: all_terminal_def filter_empty_conv)
      moreover from True schedule_inst_status [of g i] have "inst_status i = InstanceRunning" by auto
      ultimately show ?thesis using Suc.prems(1) by (simp add: term_inv_def)
    next
      case (Cons r rs)
      let ?s = "(r # rs) ! (nxt (r # rs) mod length (r # rs))"
      let ?i2 = "on_completion g (outcome ex g ?s ?i1) ?i1"
      have "?s \<in> set (running_stages g ?i1)" unfolding Cons by (rule nth_mem) simp
      then have s: "?s \<in> set (stage_names (graph_stages g))"
        "inst_stage_status ?i1 ?s = Running"
        by (simp_all add: running_stages_def)
      from on_completion_count [of ?i1 "outcome ex g ?s ?i1" g] True s
      have "unfinished_count g ?i2 < unfinished_count g ?i1" by simp
      with Suc.prems(2) have c: "unfinished_count g ?i2 < n" by (simp add: schedule_count)
      from inv1 have "term_inv g ?i2" by (rule term_inv_on_completion)
      from Suc.IH [OF this c] True Cons show ?thesis by (simp add: Let_def)
    qed
  qed
qed

lemma run_workflow_terminal:
  assumes "graph_terminal g \<in> set (stage_names (graph_stages g))"
  shows "inst_status (run_workflow g ex nxt wid request) = InstanceCompleted
     \<or> inst_status (run_workflow g ex nxt wid request) = InstanceFailed"
  unfolding run_workflow_def
proof (rule drive_terminal [OF assms term_inv_start])
  have "unfinished_count g (start_instance (create_instance wid request))
      \<le> length (stage_names (graph_stages g))"
    unfolding unfinished_count_def by (rule length_filter_le)
  then show "unfinished_count g (start_instance (create_instance wid request))
      < Suc (length (graph_stages g))" by (simp add: stage_names_def)
qed

lemma run_workflow_ids:
  "inst_id (run_workflow g ex nxt wid request) = wid
   \<and> inst_request (run_workflow g ex nxt wid request) = request"
  unfolding run_workflow_def
proof (rule drive_preserves [where P = "\<lambda>i :: workflow_instance. inst_id i = wid \<and> inst_request i = request"])
  show "inst_id (start_instance (create_instance wid request)) = wid
      \<and> inst_request (start_instance (create_instance wid request)) = request"
    by (simp add: start_instance_def create_instance_def)
next
  fix i :: workflow_instance assume "inst_id i = wid \<and> inst_request i = request"
  then show "inst_id (schedule g i) = wid \<and> inst_request (schedule g i) = request"
    by (simp add: schedule_def launch_all_fields)
next
  fix i :: workflow_instance and c assume "inst_id i = wid \<and> inst_request i = request"
  then show "inst_id (on_completion g c i) = wid \<and> inst_request (on_completion g c i) = request"
    by (cases c)
      (simp_all add: on_completion_def record_success_def record_failure_def Let_def
        skip_all_fields)
qed

subsection \<open>A failed stage skips everything that depends on it\<close>






















section \<open>The workflow graph of the canvas\<close>

text \<open>
  The stage list the canvas draws: one stage per node, depending on the sources of the
  edges that point to it.
\<close>

definition canvas_stage_defs :: "(string \<rightharpoonup> AgentStatus) \<Rightarrow> stage_def list" where
  "canvas_stage_defs m =
     map (\<lambda>n. \<lparr>stage_name = node_id n,
               stage_deps = map edge_source
                 (filter (\<lambda>e. edge_target e = node_id n) (canvas_edges m))\<rparr>)
       (canvas_nodes m)"

text \<open>
  Modelled from the spec: the terminal stage is the single stage that every other stage is
  on the path to.  On the canvas it is the one stage without an outgoing edge, if there is
  exactly one; the workflow graph of the canvas is what construction makes of the drawn
  stages with that stage as the terminal one.
\<close>

definition canvas_terminal :: "(string \<rightharpoonup> AgentStatus) \<Rightarrow> string option" where
  "canvas_terminal m = (case canvas_sinks m of [t] \<Rightarrow> Some t | _ \<Rightarrow> None)"

definition canvas_graph :: "(string \<rightharpoonup> AgentStatus) \<Rightarrow> stage_graph option" where
  "canvas_graph m =
     (case canvas_terminal m of
        None \<Rightarrow> None
      | Some t \<Rightarrow>
          (case fst (build_graph (canvas_stage_defs m) t []) of
             Inl e \<Rightarrow> None
           | Inr g \<Rightarrow> Some g))"

text \<open>A complete run of scenario A, step by step, in which every stage succeeds.\<close>

definition all_succeed :: "sched_step list" where
  "all_succeed =
     [Schedule, Complete (Succeeded ''classifier'' (res ''refund'' (1/2))),
      Schedule, Complete (Succeeded ''validator'' (res ''approved'' (8/10))),
      Complete (Succeeded ''researcher'' (res ''order found'' (9/10))),
      Schedule, Complete (Succeeded ''writer'' (res ''Dear customer'' (85/100))),
      Schedule, Complete (Succeeded ''qa'' (res ''APPROVE'' (95/100)))]"

definition finished_A :: workflow_instance where
  "finished_A =
     run_steps graph_A (start_instance (create_instance ''wf-1'' ''refund please'')) all_succeed"

text \<open>
  C2.  The canvas draws exactly the five stages classifier, researcher, validator, writer
  and qa, with the edges classifier to researcher, classifier to validator, researcher to
  writer, validator to writer and writer to qa; as a stage list this is scenario A, in which
  the classifier has no dependency.  qa is the only stage with no outgoing edge, so it is
  the terminal stage of the canvas, and every stage is on the path to it; construction
  accepts the drawn stages with qa as terminal.  Whenever an instance of the workflow
  graph of the canvas is Completed, its final output is the output of the result recorded
  for qa.
\<close>

theorem canvas_workflow_graph:
  "map node_id (canvas_nodes m) = [''classifier'', ''researcher'', ''validator'', ''writer'', ''qa'']
   \<and> map (\<lambda>e. (edge_source e, edge_target e)) (canvas_edges m) =
       [(''classifier'', ''researcher''), (''classifier'', ''validator''),
        (''researcher'', ''writer''), (''validator'', ''writer''), (''writer'', ''qa'')]
   \<and> canvas_stage_defs m = scenario_A
   \<and> deps_of graph_A ''classifier'' = []
   \<and> canvas_sinks m = [''qa'']
   \<and> canvas_terminal m = Some ''qa''
   \<and> build_graph (canvas_stage_defs m) ''qa'' [] = (Inr graph_A, scenario_A)
   \<and> canvas_graph m = Some graph_A
   \<and> list_all (required graph_A) (map node_id (canvas_nodes m))
   \<and> (\<forall>g. canvas_graph m = Some g \<longrightarrow>
        inst_status (run_steps g (start_instance (create_instance wid request)) sts)
          = InstanceCompleted \<longrightarrow>
        (\<exists>r. map_of (inst_context
                 (run_steps g (start_instance (create_instance wid request)) sts)) ''qa''
               = Some r
             \<and> inst_final_output
                 (run_steps g (start_instance (create_instance wid request)) sts)
               = Some (result_output r)))"
proof -
  have a: "map node_id (canvas_nodes m)
      = [''classifier'', ''researcher'', ''validator'', ''writer'', ''qa'']"
    by (simp add: canvas_nodes_def agent_node_def)
  have b: "map (\<lambda>e. (edge_source e, edge_target e)) (canvas_edges m) =
       [(''classifier'', ''researcher''), (''classifier'', ''validator''),
        (''researcher'', ''writer''), (''validator'', ''writer''), (''writer'', ''qa'')]"
    by (simp add: canvas_edges_def agent_edge_def)
  have c: "canvas_stage_defs m = scenario_A"
    by (simp add: canvas_stage_defs_def canvas_nodes_def canvas_edges_def agent_node_def
        agent_edge_def scenario_A_def)
  have d: "deps_of graph_A ''classifier'' = []"
    by (simp add: deps_of_def graph_A_def scenario_A_def)
  have e: "canvas_sinks m = [''qa'']"
    by (simp add: canvas_sinks_def canvas_nodes_def canvas_edges_def agent_node_def
        agent_edge_def)
  from e have t: "canvas_terminal m = Some ''qa''" by (simp add: canvas_terminal_def)
  have f: "build_graph (canvas_stage_defs m) ''qa'' [] = (Inr graph_A, scenario_A)"
    unfolding c by (rule build_graph_A)
  from t f have cg: "canvas_graph m = Some graph_A" by (simp add: canvas_graph_def)
  have "list_all (required graph_A) [''classifier'', ''researcher'', ''validator'', ''writer'', ''qa'']"
    by code_simp
  with a have rq: "list_all (required graph_A) (map node_id (canvas_nodes m))" by simp
  let ?i = "run_steps graph_A (start_instance (create_instance wid request)) sts"
  have "output_inv graph_A ?i"
    by (rule run_steps_preserves [where P = "output_inv graph_A"])
      (simp_all add: output_inv_schedule output_inv_on_completion output_inv_start)
  then have "inst_status ?i = InstanceCompleted \<longrightarrow>
      (\<exists>r. map_of (inst_context ?i) ''qa'' = Some r
         \<and> inst_final_output ?i = Some (result_output r))"
    by (auto simp: output_inv_def graph_A_def)
  with cg have g: "\<forall>g. canvas_graph m = Some g \<longrightarrow>
        inst_status (run_steps g (start_instance (create_instance wid request)) sts)
          = InstanceCompleted \<longrightarrow>
        (\<exists>r. map_of (inst_context
                 (run_steps g (start_instance (create_instance wid request)) sts)) ''qa''
               = Some r
             \<and> inst_final_output
                 (run_steps g (start_instance (create_instance wid request)) sts)
               = Some (result_output r))"
    by simp
  from a b c d e t f cg rq g show ?thesis by blast
qed

theorem canvas_workflow_graph_witness:
  "canvas_graph Map.empty = Some graph_A
   \<and> inst_status finished_A = InstanceCompleted
   \<and> inst_final_output finished_A = Some ''APPROVE''"
proof -
  have s: "inst_status finished_A = InstanceCompleted"
    by code_simp
  have q: "map_of (inst_context finished_A) ''qa'' = Some (res ''APPROVE'' (95/100))"
    by code_simp
  note t = canvas_workflow_graph [of Map.empty "''wf-1''" "''refund please''" all_succeed]
  from t have cg: "canvas_graph Map.empty = Some graph_A" by blast
  from t cg s obtain r where "map_of (inst_context finished_A) ''qa'' = Some r"
    and "inst_final_output finished_A = Some (result_output r)"
    unfolding finished_A_def by blast
  with q have "inst_final_output finished_A = Some ''APPROVE''" by (simp add: res_def)
  with s cg show ?thesis by simp
qed

section \<open>Workflow metrics\<close>






section \<open>Synchronous submission\<close>

text \<open>
  Modelled from the spec: the submission interface in synchronous mode, whose handler in
  the back end is missing from the sources.  It accepts a request text and a
  workflow-type identifier, runs the graph registered for that type to the end and
  answers with the instance; \<open>wid\<close> is the identifier generated for the instance.
\<close>

datatype submit_error = MalformedRequest | UnknownWorkflowType

definition submit_sync ::
  "(string \<rightharpoonup> stage_graph) \<Rightarrow> executor \<Rightarrow> (string list \<Rightarrow> nat) \<Rightarrow> string \<Rightarrow> http_request
     \<Rightarrow> submit_error + workflow_instance" where
  "submit_sync graphs ex nxt wid rq =
     (case map_of (req_body rq) ''user_input'' of
        None \<Rightarrow> Inl MalformedRequest
      | Some request \<Rightarrow>
          (case map_of (req_body rq) ''workflow_type'' of
             None \<Rightarrow> Inl MalformedRequest
           | Some wt \<Rightarrow>
               (case graphs wt of
                  None \<Rightarrow> Inl UnknownWorkflowType
                | Some g \<Rightarrow> Inr (run_workflow g ex nxt wid request))))"

text \<open>
  A registry with one workflow type, \<open>customer_support\<close> (the default of
  \<open>executeWorkflow\<close>), bound to scenario A.
\<close>

definition demo_graphs :: "string \<rightharpoonup> stage_graph" where
  "demo_graphs = [''customer_support'' \<mapsto> graph_A]"

text \<open>
  C5.  For every submission of a request text and a workflow type for which a graph that
  construction accepted is registered, \<open>executeWorkflow\<close> returns the whole instance, not
  only its identifier: it carries the generated workflow id and the request, its status is
  terminal (Completed or Failed), its final output is present exactly when it is
  Completed, its step results are the context entries of exactly the Completed stages,
  and its metrics are the stage count and the mean confidence of those entries.
\<close>

theorem sync_submission_returns_snapshot:
  assumes "graphs wt = Some g"
      and "build_graph defs terminal registry = (Inr g, registry')"
  shows "\<exists>snap. executeWorkflow (submit_sync graphs ex nxt wid) request wt = Inr snap
       \<and> snap = run_workflow g ex nxt wid request
       \<and> inst_id snap = wid \<and> inst_request snap = request
       \<and> (inst_status snap = InstanceCompleted \<or> inst_status snap = InstanceFailed)
       \<and> (inst_final_output snap \<noteq> None \<longleftrightarrow> inst_status snap = InstanceCompleted)
       \<and> set (map fst (inst_context snap)) = {s. inst_stage_status snap s = Completed}
       \<and> inst_stage_count snap = length (inst_context snap)
       \<and> inst_avg_confidence snap = mean (confidences snap)"
proof -
  let ?snap = "run_workflow g ex nxt wid request"
  have r: "executeWorkflow (submit_sync graphs ex nxt wid) request wt = Inr ?snap"
    using assms(1) by (simp add: executeWorkflow_def submit_sync_def)
  from build_graph_valid [OF assms(2)]
  have t: "graph_terminal g \<in> set (stage_names (graph_stages g))" by simp
  note st = run_workflow_terminal [OF t, of ex nxt wid request]
  have "output_inv g ?snap"
    unfolding run_workflow_def
    by (rule drive_preserves [where P = "output_inv g"])
      (simp_all add: output_inv_schedule output_inv_on_completion output_inv_start)
  then have out: "inst_final_output ?snap \<noteq> None \<longleftrightarrow> inst_status ?snap = InstanceCompleted"
    by (auto simp: output_inv_def)
  have "metrics_inv ?snap"
    unfolding run_workflow_def
    by (rule drive_preserves [where P = metrics_inv])
      (simp_all add: metrics_inv_schedule metrics_inv_on_completion metrics_inv_start)
  then have m: "set (map fst (inst_context ?snap)) = {s. inst_stage_status ?snap s = Completed}
       \<and> inst_stage_count ?snap = length (inst_context ?snap)
       \<and> inst_avg_confidence ?snap = mean (confidences ?snap)"
    by (simp add: metrics_inv_def)
  from r st out m run_workflow_ids [of g ex nxt wid request] show ?thesis by blast
qed

theorem sync_submission_returns_snapshot_witness:
  "executeWorkflow (submit_sync demo_graphs ex_A first_in_flight ''wf-1'') ''refund please''
      ''customer_support'' = Inr run_A
   \<and> inst_id run_A = ''wf-1''
   \<and> (inst_status run_A = InstanceCompleted \<or> inst_status run_A = InstanceFailed)"
proof -
  have g: "demo_graphs ''customer_support'' = Some graph_A" by (simp add: demo_graphs_def)
  from sync_submission_returns_snapshot [where graphs = demo_graphs and g = graph_A
      and ex = ex_A and nxt = first_in_flight and wid = "''wf-1''"
      and request = "''refund please''", OF g build_graph_A]
  show ?thesis by (auto simp: run_A_def)
qed

section \<open>Instance store and event publisher\<close>

text \<open>
  Modelled from the spec: the store of workflow instances behind the query interface and
  the event publisher of section 4.5; both are parts of the back end, whose code is
  missing from the sources.  The system holds the current state of every instance (the system
  of record), the subscriptions (subscriber, workflow id), and what has been delivered
  to each subscriber so far.  There is no replay buffer.
\<close>

record orchestrator_system =
  sys_instances :: "string \<rightharpoonup> workflow_instance"
  sys_subscribers :: "(nat \<times> string) list"
  sys_delivered :: "nat \<Rightarrow> event list"

definition empty_system :: orchestrator_system where
  "empty_system = \<lparr>sys_instances = Map.empty, sys_subscribers = [], sys_delivered = (\<lambda>_. [])\<rparr>"

text \<open>
  Modelled from the spec: \<open>subscribe\<close> registers interest in a workflow id; \<open>publish\<close> fans an
  event out to the subscribers its workflow has at that moment; \<open>fetch\<close> is the query
  interface's lookup of an instance by id.
\<close>

definition subscribe :: "nat \<Rightarrow> string \<Rightarrow> orchestrator_system \<Rightarrow> orchestrator_system" where
  "subscribe sub wid sys = sys\<lparr>sys_subscribers := sys_subscribers sys @ [(sub, wid)]\<rparr>"

definition publish :: "orchestrator_system \<Rightarrow> event \<Rightarrow> orchestrator_system" where
  "publish sys e =
     sys\<lparr>sys_delivered :=
           (\<lambda>sub. if (sub, event_workflow e) \<in> set (sys_subscribers sys)
                  then sys_delivered sys sub @ [e]
                  else sys_delivered sys sub)\<rparr>"

definition fetch :: "orchestrator_system \<Rightarrow> string \<Rightarrow> workflow_instance option" where
  "fetch sys wid = sys_instances sys wid"

text \<open>
  Modelled from the spec: the orchestrator first writes the new state of the instance and
  then publishes the events of the transition.
\<close>

definition store_and_publish ::
  "string \<Rightarrow> workflow_instance \<Rightarrow> event list \<Rightarrow> orchestrator_system \<Rightarrow> orchestrator_system" where
  "store_and_publish wid i new sys =
     foldl publish (sys\<lparr>sys_instances := (sys_instances sys)(wid \<mapsto> i)\<rparr>) new"

definition sys_submit :: "string \<Rightarrow> string \<Rightarrow> orchestrator_system \<Rightarrow> orchestrator_system" where
  "sys_submit wid request sys =
     (let i = start_instance (create_instance wid request)
      in store_and_publish wid i (inst_events i) sys)"

definition sys_step ::
  "stage_graph \<Rightarrow> string \<Rightarrow> orchestrator_system \<Rightarrow> sched_step \<Rightarrow> orchestrator_system" where
  "sys_step g wid sys st =
     (case sys_instances sys wid of
        None \<Rightarrow> sys
      | Some i \<Rightarrow>
          (let i' = apply_step g i st
           in store_and_publish wid i' (drop (length (inst_events i)) (inst_events i')) sys))"

definition sys_run ::
  "stage_graph \<Rightarrow> string \<Rightarrow> sched_step list \<Rightarrow> orchestrator_system \<Rightarrow> orchestrator_system" where
  "sys_run g wid sts sys = foldl (sys_step g wid) sys sts"

text \<open>A workflow is submitted to a system and run through a list of steps.\<close>

definition observed_run ::
  "stage_graph \<Rightarrow> string \<Rightarrow> string \<Rightarrow> sched_step list \<Rightarrow> orchestrator_system \<Rightarrow> orchestrator_system" where
  "observed_run g wid request sts sys = sys_run g wid sts (sys_submit wid request sys)"

text \<open>
  One instance extends another when it has the same id and its event log is the other's
  log followed by events of that workflow.
\<close>

definition extends :: "workflow_instance \<Rightarrow> workflow_instance \<Rightarrow> bool" where
  "extends i i' \<longleftrightarrow>
     inst_id i' = inst_id i
     \<and> (\<exists>new. inst_events i' = inst_events i @ new
            \<and> list_all (\<lambda>e. event_workflow e = inst_id i) new)"

subsection \<open>Events are appended, and belong to their workflow\<close>

lemma extends_refl: "extends i i"
  by (simp add: extends_def)

lemma extends_trans: "extends i j \<Longrightarrow> extends j k \<Longrightarrow> extends i k"
  by (auto simp: extends_def)

lemma extends_emit: "extends i j \<Longrightarrow> extends i (emit s k p j)"
  by (auto simp: extends_def emit_def)

lemma extends_same_log:
  "extends i j \<Longrightarrow> inst_id j' = inst_id j \<Longrightarrow> inst_events j' = inst_events j \<Longrightarrow> extends i j'"
  by (simp add: extends_def)

lemma extends_launch_all: "extends i j \<Longrightarrow> extends i (foldl launch j ss)"
proof (induction ss arbitrary: j)
  case Nil
  then show ?case by simp
next
  case (Cons s ss)
  have "extends i (launch j s)"
    unfolding launch_def
    by (rule extends_emit, rule extends_same_log [OF Cons.prems]) simp_all
  from Cons.IH [OF this] show ?case by simp
qed

lemma extends_skip_all: "extends i j \<Longrightarrow> extends i (foldl skip j ss)"
proof (induction ss arbitrary: j)
  case Nil
  then show ?case by simp
next
  case (Cons s ss)
  have "extends i (skip j s)"
    unfolding skip_def
    using Cons.prems
    by (auto intro!: extends_emit intro: extends_same_log [OF Cons.prems])
  from Cons.IH [OF this] show ?case by simp
qed

lemma extends_schedule: "extends i (schedule g i)"
  unfolding schedule_def
  by (auto intro!: extends_launch_all extends_emit extends_refl
      intro: extends_same_log [OF extends_refl])

lemma extends_on_completion: "extends i (on_completion g c i)"
proof (cases c)
  case (Succeeded s r)
  have "extends i (record_success g s r i)"
    by (simp add: extends_def record_success_def Let_def emit_def fold_metrics_def set_stage_def)
  with Succeeded show ?thesis
    by (simp add: on_completion_def extends_refl)
next
  case (Errored s e)
  have 1: "extends i (foldl skip (emit s EvFailed None (set_stage s Failed i)) (dependents g s))"
    by (rule extends_skip_all, rule extends_emit, rule extends_same_log [OF extends_refl])
      simp_all
  have 2: "extends i (emit ''workflow'' EvFailed None
      (foldl skip (emit s EvFailed None (set_stage s Failed i)) (dependents g s)
        \<lparr>inst_status := InstanceFailed\<rparr>))"
    by (rule extends_emit, rule extends_same_log [OF 1]) simp_all
  from Errored 1 2 show ?thesis
    by (simp add: on_completion_def record_failure_def Let_def extends_refl)
qed

lemma extends_apply_step: "extends i (apply_step g i st)"
  by (cases st) (simp_all add: extends_schedule extends_on_completion)

lemma extends_run_steps: "extends i (run_steps g i sts)"
proof (induction sts arbitrary: i)
  case Nil
  then show ?case by (simp add: run_steps_def extends_refl)
next
  case (Cons st sts)
  from extends_trans [OF extends_apply_step Cons.IH]
  show ?case by (simp add: run_steps_def)
qed

lemma run_steps_terminal:
  "inst_status i \<noteq> InstanceRunning \<Longrightarrow> run_steps g i sts = i"
proof (induction sts)
  case Nil
  then show ?case by (simp add: run_steps_def)
next
  case (Cons st sts)
  from Cons.prems have "apply_step g i st = i"
    by (cases st) (simp_all add: schedule_terminal on_completion_terminal)
  with Cons show ?case by (simp add: run_steps_def)
qed

subsection \<open>What a run stores and delivers\<close>

lemma publish_all:
  "sys_instances (foldl publish sys es) = sys_instances sys
   \<and> sys_subscribers (foldl publish sys es) = sys_subscribers sys
   \<and> sys_delivered (foldl publish sys es) sub =
       sys_delivered sys sub
         @ filter (\<lambda>e. (sub, event_workflow e) \<in> set (sys_subscribers sys)) es"
  by (induction es arbitrary: sys) (simp_all add: publish_def)

lemma store_and_publish_char:
  assumes "list_all (\<lambda>e. event_workflow e = wid) new"
  shows "sys_instances (store_and_publish wid i new sys) = (sys_instances sys)(wid \<mapsto> i)
   \<and> sys_subscribers (store_and_publish wid i new sys) = sys_subscribers sys
   \<and> sys_delivered (store_and_publish wid i new sys) sub =
       (if (sub, wid) \<in> set (sys_subscribers sys) then sys_delivered sys sub @ new
        else sys_delivered sys sub)"
proof -
  from assms have "filter (\<lambda>e. (sub, event_workflow e) \<in> set (sys_subscribers sys)) new =
      (if (sub, wid) \<in> set (sys_subscribers sys) then new else [])"
    by (induction new) auto
  then show ?thesis
    by (simp add: store_and_publish_def publish_all)
qed

lemma sys_run_char:
  assumes "sys_instances sys wid = Some i" and "inst_id i = wid"
  shows "sys_instances (sys_run g wid sts sys) = (sys_instances sys)(wid \<mapsto> run_steps g i sts)
   \<and> sys_subscribers (sys_run g wid sts sys) = sys_subscribers sys
   \<and> sys_delivered (sys_run g wid sts sys) sub =
       (if (sub, wid) \<in> set (sys_subscribers sys)
        then sys_delivered sys sub
               @ drop (length (inst_events i)) (inst_events (run_steps g i sts))
        else sys_delivered sys sub)"
  using assms
proof (induction sts arbitrary: sys i)
  case Nil
  then show ?case by (auto simp: sys_run_def run_steps_def)
next
  case (Cons st sts)
  let ?i' = "apply_step g i st"
  let ?new = "drop (length (inst_events i)) (inst_events ?i')"
  let ?sys' = "sys_step g wid sys st"
  from extends_apply_step [of i g st] Cons.prems(2)
  have id': "inst_id ?i' = wid" and ev: "inst_events ?i' = inst_events i @ ?new"
    and wf: "list_all (\<lambda>e. event_workflow e = wid) ?new"
    by (auto simp: extends_def)
  have s: "?sys' = store_and_publish wid ?i' ?new sys"
    using Cons.prems(1) by (simp add: sys_step_def Let_def)
  note c = store_and_publish_char [OF wf, of ?i' sys]
  from c have i': "sys_instances ?sys' wid = Some ?i'" unfolding s by simp
  note ih = Cons.IH [OF i' id']
  have r: "run_steps g i (st # sts) = run_steps g ?i' sts" by (simp add: run_steps_def)
  from extends_run_steps [of ?i' g sts] obtain rest where
    m: "inst_events (run_steps g ?i' sts) = inst_events ?i' @ rest"
    by (auto simp: extends_def)
  have d: "drop (length (inst_events i)) (inst_events (run_steps g ?i' sts))
      = ?new @ drop (length (inst_events ?i')) (inst_events (run_steps g ?i' sts))"
    unfolding m by (subst (1) ev) simp
  have run: "sys_run g wid (st # sts) sys = sys_run g wid sts ?sys'" by (simp add: sys_run_def)
  show ?case
    unfolding run r d using ih c [of sub] unfolding s by auto
qed


lemma observed_run_char:
  "sys_instances (observed_run g wid request sts sys)
     = (sys_instances sys)(wid \<mapsto> run_steps g (start_instance (create_instance wid request)) sts)
   \<and> sys_subscribers (observed_run g wid request sts sys) = sys_subscribers sys
   \<and> sys_delivered (observed_run g wid request sts sys) sub =
       (if (sub, wid) \<in> set (sys_subscribers sys)
        then sys_delivered sys sub
               @ inst_events (run_steps g (start_instance (create_instance wid request)) sts)
        else sys_delivered sys sub)"
proof -
  let ?i0 = "start_instance (create_instance wid request)"
  let ?s1 = "sys_submit wid request sys"
  have id0: "inst_id ?i0 = wid" by (simp add: start_instance_def create_instance_def)
  have wf: "list_all (\<lambda>e. event_workflow e = wid) (inst_events ?i0)"
    by (simp add: start_instance_def create_instance_def emit_def)
  have s1: "?s1 = store_and_publish wid ?i0 (inst_events ?i0) sys"
    by (simp add: sys_submit_def Let_def)
  note c = store_and_publish_char [OF wf, of ?i0 sys]
  from c have i0: "sys_instances ?s1 wid = Some ?i0" unfolding s1 by simp
  note r = sys_run_char [OF i0 id0, of g sts]
  from extends_run_steps [of ?i0 g sts] obtain rest where
    "inst_events (run_steps g ?i0 sts) = inst_events ?i0 @ rest"
    by (auto simp: extends_def)
  then have d: "inst_events ?i0 @ drop (length (inst_events ?i0)) (inst_events (run_steps g ?i0 sts))
      = inst_events (run_steps g ?i0 sts)" by simp
  show ?thesis
    unfolding observed_run_def using r [of sub] c [of sub] d unfolding s1 by auto
qed

text \<open>
  C8.  Let a workflow have run to a terminal state.  A subscriber that subscribes to it
  afterwards is delivered nothing, whatever steps the orchestrator still takes: if it
  was not subscribed before, it has received exactly what it had received before the
  workflow was submitted.  Fetching the workflow by id then returns the final instance,
  the same instance that is fetched in a system where a subscriber had subscribed before
  the submission; that early subscriber has received, after what it already had, exactly
  the event log of the final instance.
\<close>

theorem late_subscriber:
  assumes "i = run_steps g (start_instance (create_instance wid request)) sts"
      and "inst_status i = InstanceCompleted \<or> inst_status i = InstanceFailed"
  shows "sys_delivered
           (sys_run g wid later (subscribe late wid (observed_run g wid request sts sys0))) late
         = sys_delivered (observed_run g wid request sts sys0) late
       \<and> ((late, wid) \<notin> set (sys_subscribers sys0) \<longrightarrow>
            sys_delivered
              (sys_run g wid later (subscribe late wid (observed_run g wid request sts sys0))) late
            = sys_delivered sys0 late)
       \<and> fetch (sys_run g wid later (subscribe late wid (observed_run g wid request sts sys0))) wid
         = Some i
       \<and> fetch (observed_run g wid request sts (subscribe early wid sys0)) wid = Some i
       \<and> sys_delivered (observed_run g wid request sts (subscribe early wid sys0)) early
         = sys_delivered sys0 early @ inst_events i"
proof -
  let ?done = "observed_run g wid request sts sys0"
  let ?late = "subscribe late wid ?done"
  note o = observed_run_char [of g wid request sts sys0]
  from o assms(1) have st: "sys_instances ?late wid = Some i"
    by (simp add: subscribe_def)
  from extends_run_steps [of "start_instance (create_instance wid request)" g sts] assms(1)
  have id: "inst_id i = wid"
    by (simp add: extends_def start_instance_def create_instance_def)
  from assms(2) have stay: "run_steps g i later = i"
    by (intro run_steps_terminal) auto
  note r = sys_run_char [OF st id, of g later]
  have a: "sys_delivered (sys_run g wid later ?late) late = sys_delivered ?done late"
    using r [of late] stay by (simp add: subscribe_def)
  have b: "(late, wid) \<notin> set (sys_subscribers sys0) \<longrightarrow>
      sys_delivered (sys_run g wid later ?late) late = sys_delivered sys0 late"
    using a observed_run_char [of g wid request sts sys0 late] by simp
  have c: "fetch (sys_run g wid later ?late) wid = Some i"
    using r [of late] stay by (simp add: fetch_def)
  have d: "fetch (observed_run g wid request sts (subscribe early wid sys0)) wid = Some i"
    using observed_run_char [of g wid request sts "subscribe early wid sys0"] assms(1)
    by (simp add: fetch_def)
  have e: "sys_delivered (observed_run g wid request sts (subscribe early wid sys0)) early
      = sys_delivered sys0 early @ inst_events i"
    using observed_run_char [of g wid request sts "subscribe early wid sys0" early] assms(1)
    by (simp add: subscribe_def)
  from a b c d e show ?thesis by blast
qed

theorem late_subscriber_witness:
  "sys_delivered
     (sys_run graph_A ''wf-1'' [Schedule]
        (subscribe 2 ''wf-1'' (observed_run graph_A ''wf-1'' ''refund please'' all_succeed
           empty_system))) 2 = []
   \<and> fetch
       (sys_run graph_A ''wf-1'' [Schedule]
          (subscribe 2 ''wf-1'' (observed_run graph_A ''wf-1'' ''refund please'' all_succeed
             empty_system))) ''wf-1'' = Some finished_A
   \<and> sys_delivered
       (observed_run graph_A ''wf-1'' ''refund please'' all_succeed
          (subscribe 1 ''wf-1'' empty_system)) 1 = inst_events finished_A"
proof -
  have s: "inst_status finished_A = InstanceCompleted \<or> inst_status finished_A = InstanceFailed"
    by code_simp
  have n: "(2, ''wf-1'') \<notin> set (sys_subscribers empty_system)"
    by (simp add: empty_system_def)
  from late_subscriber [OF finished_A_def s, of "[Schedule]" 2 empty_system 1] n
  have "sys_delivered
     (sys_run graph_A ''wf-1'' [Schedule]
        (subscribe 2 ''wf-1'' (observed_run graph_A ''wf-1'' ''refund please'' all_succeed
           empty_system))) 2 = sys_delivered empty_system 2"
    and "fetch
       (sys_run graph_A ''wf-1'' [Schedule]
          (subscribe 2 ''wf-1'' (observed_run graph_A ''wf-1'' ''refund please'' all_succeed
             empty_system))) ''wf-1'' = Some finished_A"
    and "sys_delivered
       (observed_run graph_A ''wf-1'' ''refund please'' all_succeed
          (subscribe 1 ''wf-1'' empty_system)) 1 = sys_delivered empty_system 1 @ inst_events finished_A"
    by blast+
  then show ?thesis by (simp add: empty_system_def)
qed

end
